theory Spec2Isabelle
  imports Main "HOL-Library.Log_Nat"
begin

unbundle bit_operations_syntax

section \<open>Python values shared by the two modules\<close>

text \<open>
  The exceptions of the source that the models below can raise.  A function that can
  raise returns \<open>py_error + 'a\<close>, with \<open>Inl\<close> for the exception.
\<close>

datatype py_error =
    ZeroDivisionError
  | OverflowError
  | KeyError
  | ValueError
  | UnicodeEncodeError
  | UnicodeDecodeError
  | IndexError
  | UnboundLocalError
  | TypeError
  | AttributeError
  | UserWarning
  | TimeoutError
  | OtherException

text \<open>
  In workers.py a \<open>str\<close> is only measured, compared and passed on.  There it is held
  as its UTF-8 encoding, one \<open>char\<close> per byte, and \<open>len(s)\<close> counts its code points:
  the bytes that are not continuation bytes.  In tools.py, where strings are encoded and
  decoded, a \<open>str\<close> is the list of its code points (see there).
\<close>

definition cont_byte :: "int \<Rightarrow> bool" where
  "cont_byte b = (128 \<le> b \<and> b \<le> 191)"

definition py_len :: "string \<Rightarrow> int" where
  "py_len s = int (length (filter (\<lambda>c. \<not> cont_byte (of_char c)) s))"

text \<open>Storing an integer into a \<open>bytearray\<close> raises \<open>ValueError\<close> outside \<open>range(256)\<close>.\<close>

definition store_byte :: "int \<Rightarrow> py_error + char" where
  "store_byte v = (if 0 \<le> v \<and> v < 256 then Inr (char_of v) else Inl ValueError)"

text \<open>
  A method that raises has changed the object up to the raise, and a \<open>QMutex.lock()\<close>
  on a locked mutex does not return; so the result of a method is the state together
  with the way the call ended.
\<close>

datatype 'a outcome = Done 'a | Raised py_error 'a | Blocked 'a

fun state_of :: "'a outcome \<Rightarrow> 'a" where
  "state_of (Done s) = s"
| "state_of (Raised e s) = s"
| "state_of (Blocked s) = s"

text \<open>
  A call of the backend client returns a value or raises; the result is a parameter of
  the models.  \<open>TimeoutError\<close> is what \<open>except TimeoutError\<close> catches, every other
  exception is caught by \<open>except Exception\<close>.
\<close>

datatype 'a call = Returns 'a | Raises py_error

text \<open>
  Modelled from the spec: the status codes \<open>LanZouCloud.SUCCESS\<close>, \<open>FAILED\<close>, ... of
  the backend client \<open>lanzou.api\<close>, which is not among the sources.  The workers only
  compare a result with these constants.
\<close>

datatype status =
    SUCCESS
  | FAILED
  | URL_INVALID
  | LACK_PASSWORD
  | PASSWORD_ERROR
  | FILE_CANCELLED
  | ZIP_ERROR
  | NETWORK_ERROR
  | MKDIR_ERROR
  | Other_status int

section \<open>tools.py: the credential obfuscation\<close>

text \<open>
  In this module a \<open>str\<close> is the list of its code points, each of them a number in
  \<open>range(0x110000)\<close>; a \<open>bytes\<close> or \<open>bytearray\<close> object is a list of bytes, one \<open>char\<close>
  per byte.  A code point from \<open>0xD800\<close> to \<open>0xDFFF\<close> is a surrogate: a \<open>str\<close> can hold
  it, and UTF-8 has no encoding for it.
\<close>

type_synonym py_str = "nat list"

definition is_py_str :: "py_str \<Rightarrow> bool" where
  "is_py_str s = list_all (\<lambda>c. c < 1114112) s"

definition surrogate :: "nat \<Rightarrow> bool" where
  "surrogate c = (55296 \<le> c \<and> c \<le> 57343)"

text \<open>
  \<open>s.encode("utf-8")\<close>: one to four bytes for a code point, and \<open>UnicodeEncodeError\<close>
  for a string that holds a surrogate.
\<close>

definition utf8_code_point :: "nat \<Rightarrow> int list" where
  "utf8_code_point c =
     (let v = int c
      in if v < 128 then [v]
         else if v < 2048 then [192 + v div 64, 128 + v mod 64]
         else if v < 65536 then [224 + v div 4096, 128 + v div 64 mod 64, 128 + v mod 64]
         else [240 + v div 262144, 128 + v div 4096 mod 64, 128 + v div 64 mod 64,
               128 + v mod 64])"

definition encode_utf8 :: "py_str \<Rightarrow> py_error + string" where
  "encode_utf8 s =
     (if list_ex surrogate s then Inl UnicodeEncodeError
      else Inr (map char_of (concat (map utf8_code_point s))))"

text \<open>
  \<open>b.decode("utf-8")\<close>: the strict decoder.  It raises \<open>UnicodeDecodeError\<close> for a byte
  that starts no sequence, for a sequence that is cut short, for an encoding longer
  than needed, for an encoded surrogate and for a code point above \<open>0x10FFFF\<close>.
\<close>

definition cons_code_point :: "nat \<Rightarrow> py_error + py_str \<Rightarrow> py_error + py_str" where
  "cons_code_point c r = (case r of Inl e \<Rightarrow> Inl e | Inr s \<Rightarrow> Inr (c # s))"

fun utf8_code_points :: "int list \<Rightarrow> py_error + py_str" where
  "utf8_code_points [] = Inr []"
| "utf8_code_points (b # bs) =
     (if b \<le> 127 then cons_code_point (nat b) (utf8_code_points bs)
      else if 194 \<le> b \<and> b \<le> 223 then
        (case bs of
           c1 # r \<Rightarrow>
             if cont_byte c1
             then cons_code_point (nat ((b - 192) * 64 + (c1 - 128))) (utf8_code_points r)
             else Inl UnicodeDecodeError
         | _ \<Rightarrow> Inl UnicodeDecodeError)
      else if 224 \<le> b \<and> b \<le> 239 then
        (case bs of
           c1 # c2 # r \<Rightarrow>
             if (if b = 224 then 160 \<le> c1 \<and> c1 \<le> 191
                 else if b = 237 then 128 \<le> c1 \<and> c1 \<le> 159
                 else cont_byte c1) \<and> cont_byte c2
             then cons_code_point (nat ((b - 224) * 4096 + (c1 - 128) * 64 + (c2 - 128)))
                    (utf8_code_points r)
             else Inl UnicodeDecodeError
         | _ \<Rightarrow> Inl UnicodeDecodeError)
      else if 240 \<le> b \<and> b \<le> 244 then
        (case bs of
           c1 # c2 # c3 # r \<Rightarrow>
             if (if b = 240 then 144 \<le> c1 \<and> c1 \<le> 191
                 else if b = 244 then 128 \<le> c1 \<and> c1 \<le> 143
                 else cont_byte c1) \<and> cont_byte c2 \<and> cont_byte c3
             then cons_code_point
                    (nat ((b - 240) * 262144 + (c1 - 128) * 4096 + (c2 - 128) * 64 + (c3 - 128)))
                    (utf8_code_points r)
             else Inl UnicodeDecodeError
         | _ \<Rightarrow> Inl UnicodeDecodeError)
      else Inl UnicodeDecodeError)"

definition decode_utf8 :: "string \<Rightarrow> py_error + py_str" where
  "decode_utf8 b = utf8_code_points (map of_char b)"

definition KEY :: int where
  "KEY = 152"

text \<open>
  \<open>encrypt(key, s)\<close>: the string is encoded; every byte \<open>b1\<close> of the encoding becomes
  the two bytes \<open>(b1 ^ key) % 19 + 46\<close> and \<open>(b1 ^ key) // 19 + 46\<close>, in this order; the
  bytes are decoded.
\<close>

fun encrypt_loop :: "int \<Rightarrow> string \<Rightarrow> py_error + string" where
  "encrypt_loop key [] = Inr []"
| "encrypt_loop key (x # xs) =
     (let b1 = of_char x;
          b2 = b1 XOR key;
          c1 = b2 mod 19;
          c2 = b2 div 19
      in case store_byte (c1 + 46) of
           Inl e \<Rightarrow> Inl e
         | Inr y1 \<Rightarrow>
             (case store_byte (c2 + 46) of
                Inl e \<Rightarrow> Inl e
              | Inr y2 \<Rightarrow>
                  (case encrypt_loop key xs of
                     Inl e \<Rightarrow> Inl e
                   | Inr c \<Rightarrow> Inr (y1 # y2 # c))))"

definition encrypt :: "int \<Rightarrow> py_str \<Rightarrow> py_error + py_str" where
  "encrypt key s =
     (case encode_utf8 s of
        Inl e \<Rightarrow> Inl e
      | Inr b \<Rightarrow>
          (case encrypt_loop key b of Inl e \<Rightarrow> Inl e | Inr c \<Rightarrow> decode_utf8 c))"

text \<open>
  \<open>decrypt(ksa, s)\<close>: the string is encoded; an encoding of odd length gives the empty
  string; otherwise every pair \<open>c1, c2\<close> of bytes becomes the byte
  \<open>((c2 - 46) * 19 + (c1 - 46)) ^ ksa\<close>, and the bytes are decoded.
\<close>

fun decrypt_loop :: "int \<Rightarrow> string \<Rightarrow> py_error + string" where
  "decrypt_loop ksa (x # y # rest) =
     (let c1 = of_char x - 46;
          c2 = of_char y - 46;
          b2 = c2 * 19 + c1;
          b1 = b2 XOR ksa
      in case store_byte b1 of
           Inl e \<Rightarrow> Inl e
         | Inr z \<Rightarrow>
             (case decrypt_loop ksa rest of
                Inl e \<Rightarrow> Inl e
              | Inr b \<Rightarrow> Inr (z # b)))"
| "decrypt_loop ksa _ = Inr []"

definition decrypt :: "int \<Rightarrow> py_str \<Rightarrow> py_error + py_str" where
  "decrypt ksa s =
     (case encode_utf8 s of
        Inl e \<Rightarrow> Inl e
      | Inr c \<Rightarrow>
          if length c mod 2 \<noteq> 0 then Inr []
          else (case decrypt_loop ksa c of Inl e \<Rightarrow> Inl e | Inr b \<Rightarrow> decode_utf8 b))"

text \<open>
  The values \<open>UserInfo\<close> stores: \<open>None\<close>, a \<open>str\<close> (name, password) or a \<open>dict\<close> of
  \<open>str\<close> values (the cookie).  \<open>encode\<close> obfuscates a dictionary value by value and
  a truthy scalar as a whole, and returns a falsy scalar as it is; \<open>decode\<close> undoes
  it, returns \<open>None\<close> for a falsy scalar and swallows every exception into \<open>None\<close>.
\<close>

datatype py_val = PNone | PStr py_str | PDict "(py_str \<times> py_str) list"

fun encode_items :: "(py_str \<times> py_str) list \<Rightarrow> py_error + (py_str \<times> py_str) list" where
  "encode_items [] = Inr []"
| "encode_items ((k, v) # kvs) =
     (case encrypt KEY v of
        Inl e \<Rightarrow> Inl e
      | Inr c \<Rightarrow>
          (case encode_items kvs of
             Inl e \<Rightarrow> Inl e
           | Inr r \<Rightarrow> Inr ((k, c) # r)))"

fun encode :: "py_val \<Rightarrow> py_error + py_val" where
  "encode (PDict kvs) =
     (case encode_items kvs of Inl e \<Rightarrow> Inl e | Inr r \<Rightarrow> Inr (PDict r))"
| "encode (PStr s) =
     (if s \<noteq> [] then (case encrypt KEY s of Inl e \<Rightarrow> Inl e | Inr c \<Rightarrow> Inr (PStr c))
      else Inr (PStr s))"
| "encode PNone = Inr PNone"

fun decode_items :: "(py_str \<times> py_str) list \<Rightarrow> py_error + (py_str \<times> py_str) list" where
  "decode_items [] = Inr []"
| "decode_items ((k, v) # kvs) =
     (case decrypt KEY v of
        Inl e \<Rightarrow> Inl e
      | Inr c \<Rightarrow>
          (case decode_items kvs of
             Inl e \<Rightarrow> Inl e
           | Inr r \<Rightarrow> Inr ((k, c) # r)))"

fun decode :: "py_val \<Rightarrow> py_val" where
  "decode (PDict kvs) =
     (case decode_items kvs of Inl e \<Rightarrow> PNone | Inr r \<Rightarrow> PDict r)"
| "decode (PStr s) =
     (if s \<noteq> [] then (case decrypt KEY s of Inl e \<Rightarrow> PNone | Inr b \<Rightarrow> PStr b)
      else PNone)"
| "decode PNone = PNone"

record user_info =
  u_username :: py_val
  u_pwd :: py_val
  u_cookie :: py_val

text \<open>The constructor \<open>UserInfo(name, pwd, cookie)\<close> and the three read accessors.\<close>

definition UserInfo :: "py_val \<Rightarrow> py_val \<Rightarrow> py_val \<Rightarrow> py_error + user_info" where
  "UserInfo name pwd cookie =
     (case encode name of
        Inl e \<Rightarrow> Inl e
      | Inr n \<Rightarrow>
          (case encode pwd of
             Inl e \<Rightarrow> Inl e
           | Inr p \<Rightarrow>
               (case encode cookie of
                  Inl e \<Rightarrow> Inl e
                | Inr c \<Rightarrow> Inr \<lparr>u_username = n, u_pwd = p, u_cookie = c\<rparr>)))"

definition get_name :: "user_info \<Rightarrow> py_val" where
  "get_name u = decode (u_username u)"

definition get_pwd :: "user_info \<Rightarrow> py_val" where
  "get_pwd u = decode (u_pwd u)"

definition get_cookie :: "user_info \<Rightarrow> py_val" where
  "get_cookie u = decode (u_cookie u)"

text \<open>
  The shape of the bytes of an obfuscated text: pairs of a remainder byte in 46..64 and
  a quotient byte in 46..59.
\<close>

fun obfuscated :: "string \<Rightarrow> bool" where
  "obfuscated [] = True"
| "obfuscated [x] = False"
| "obfuscated (x # y # rest) =
     (46 \<le> (of_char x :: int) \<and> (of_char x :: int) \<le> 64 \<and>
      46 \<le> (of_char y :: int) \<and> (of_char y :: int) \<le> 59 \<and> obfuscated rest)"

text \<open>
  The strings UTF-8 can encode: every code point is in range and none is a surrogate.
  Strings for the examples: one with a code point for each length of encoding (the
  letter \<open>a\<close>, \<open>U+00E9\<close>, \<open>U+4E2D\<close> and \<open>U+1F600\<close>), and the texts \<open>me\<close>, \<open>pw\<close>, \<open>k\<close>
  and \<open>v\<close>.
\<close>

definition encodable :: "py_str \<Rightarrow> bool" where
  "encodable s = (is_py_str s \<and> \<not> list_ex surrogate s)"

definition str_sample :: py_str where
  "str_sample = [97, 233, 20013, 128512]"

definition str_me :: py_str where
  "str_me = [109, 101]"

definition str_pw :: py_str where
  "str_pw = [112, 119]"

definition str_k :: py_str where
  "str_k = [107]"

definition str_v :: py_str where
  "str_v = [118]"

section \<open>Python floats\<close>

text \<open>
  A Python \<open>float\<close> is an IEEE 754 binary64 number; the model represents a finite float
  by the rational number it denotes.  Every float operation returns the exact result
  rounded to the nearest float, ties to the even significand: 53 bits of significand,
  the exponent of the last place at least \<open>-1074\<close>, and \<open>OverflowError\<close> for a quotient
  of integers that rounds to \<open>2 ^ 1024\<close> or more.  A product or a difference of floats
  beyond that range is an infinity, which the model does not have: \<open>fl\<close> is the
  rounding for the results within the range, as they all are in \<open>show_progress\<close> unless
  \<open>now_size\<close> is more than \<open>10 ^ 300\<close> times \<open>total_size\<close>.
\<close>

definition round_half_even :: "int \<Rightarrow> int \<Rightarrow> int" where
  \<comment> \<open>the integer nearest to \<open>n / d\<close>, for \<open>0 \<le> n\<close> and \<open>0 < d\<close>\<close>
  "round_half_even n d =
     (let q = n div d; r = n mod d
      in if 2 * r < d then q
         else if d < 2 * r then q + 1
         else if even q then q else q + 1)"

definition float_exponent :: "int \<Rightarrow> int \<Rightarrow> int" where
  \<comment> \<open>the \<open>e\<close> with \<open>2 ^ e \<le> a / b < 2 ^ (e + 1)\<close>, for \<open>0 < a\<close> and \<open>0 < b\<close>\<close>
  "float_exponent a b =
     (let d = bitlen a - bitlen b
      in if (if 0 \<le> d then b * 2 ^ nat d \<le> a else b \<le> a * 2 ^ nat (- d)) then d else d - 1)"

definition pow2 :: "int \<Rightarrow> rat" where
  "pow2 e = (if 0 \<le> e then 2 ^ nat e else 1 / 2 ^ nat (- e))"

definition round_to_float :: "int \<Rightarrow> int \<Rightarrow> rat" where
  \<comment> \<open>the float nearest to \<open>a / b\<close>, for \<open>0 < a\<close> and \<open>0 < b\<close>, before the overflow check\<close>
  "round_to_float a b =
     (let e = float_exponent a b;
          s = max (e - 52) (- 1074);
          m = (if 0 \<le> s then round_half_even a (b * 2 ^ nat s)
               else round_half_even (a * 2 ^ nat (- s)) b)
      in of_int m * pow2 s)"

definition py_truediv :: "int \<Rightarrow> int \<Rightarrow> py_error + rat" where
  \<comment> \<open>\<open>a / b\<close> on two \<open>int\<close>s\<close>
  "py_truediv a b =
     (if b = 0 then Inl ZeroDivisionError
      else if a = 0 then Inr 0
      else let v = round_to_float \<bar>a\<bar> \<bar>b\<bar>
           in if 2 ^ 1024 \<le> v then Inl OverflowError
              else Inr (if (a < 0) = (b < 0) then v else - v))"

definition fl :: "rat \<Rightarrow> rat" where
  \<comment> \<open>the rounding of the exact result of \<open>*\<close> or \<open>-\<close> on floats\<close>
  "fl x =
     (if x = 0 then 0
      else let (n, d) = quotient_of x; v = round_to_float \<bar>n\<bar> d
           in if 0 < n then v else - v)"

definition py_int :: "rat \<Rightarrow> int" where
  \<comment> \<open>\<open>int(x)\<close> on a float: truncation towards zero\<close>
  "py_int x = (if 0 \<le> x then \<lfloor>x\<rfloor> else \<lceil>x\<rceil>)"

definition py_round :: "rat \<Rightarrow> int" where
  \<comment> \<open>\<open>round(x)\<close> on a float: the nearest integer, ties to even\<close>
  "py_round x =
     (let (n, d) = quotient_of x
      in if 0 \<le> n then round_half_even n d else - round_half_even (- n) d)"

section \<open>workers.py: the progress callback\<close>

text \<open>
  \<open>show_progress(file_name, total_size, now_size)\<close> computes the fraction done, the
  length of the bar (by the length of the name), the unit and the numbers of filled and
  empty glyphs, formats them into one line of text and appends a "Done!" mark when
  \<open>total_size == now_size\<close>.  The model returns the numbers that go into the line
  instead of the formatted text; the first statement, \<open>now_size / total_size\<close>, is the
  one that can raise.
\<close>

record progress_msg =
  pm_percent :: rat   \<comment> \<open>\<open>percent * 100\<close>\<close>
  pm_filled :: int    \<comment> \<open>\<open>round(bar_len * percent)\<close>\<close>
  pm_empty :: int     \<comment> \<open>\<open>round(bar_len * (1 - percent))\<close>\<close>
  pm_now :: rat       \<comment> \<open>\<open>now_size / piece\<close>\<close>
  pm_total :: rat     \<comment> \<open>\<open>total_size / piece\<close>\<close>
  pm_unit :: string
  pm_name :: string
  pm_done :: bool

definition show_progress :: "string \<Rightarrow> int \<Rightarrow> int \<Rightarrow> py_error + progress_msg" where
  "show_progress file_name total_size now_size =
     (case py_truediv now_size total_size of
        Inl e \<Rightarrow> Inl e
      | Inr percent \<Rightarrow>
          (let file_len = py_len file_name;
               bar_len = (if 20 \<le> file_len then 20 else if 10 \<le> file_len then 30 else (40::int));
               (unit, piece) =
                 (if 1048576 \<le> total_size then (''MB'', 1048576) else (''KB'', (1024::int)))
           in case py_truediv now_size piece of
                Inl e \<Rightarrow> Inl e
              | Inr n \<Rightarrow>
                  (case py_truediv total_size piece of
                     Inl e \<Rightarrow> Inl e
                   | Inr t \<Rightarrow>
                       Inr \<lparr>pm_percent = fl (percent * 100),
                            pm_filled = py_round (fl (of_int bar_len * percent)),
                            pm_empty = py_round (fl (of_int bar_len * fl (1 - percent))),
                            pm_now = n, pm_total = t, pm_unit = unit,
                            pm_name = file_name, pm_done = (total_size = now_size)\<rparr>)))"

text \<open>
  The rate both \<open>_show_progress\<close> callbacks emit: \<open>int(1000 * now_size/total_size)\<close>,
  a product of integers, a true division and a truncation.
\<close>

definition progress_rate :: "int \<Rightarrow> int \<Rightarrow> py_error + int" where
  "progress_rate total_size now_size =
     (case py_truediv (1000 * now_size) total_size of
        Inl e \<Rightarrow> Inl e
      | Inr q \<Rightarrow> Inr (py_int q))"

text \<open>
  \<open>Downloader._show_progress\<close>: the text is computed first, then the rate is emitted on
  \<open>download_rate\<close> with the worker's URL, then the text on \<open>download_proc\<close>.
\<close>

datatype dl_signal =
    Download_rate string int
  | Download_proc progress_msg

definition Downloader_show_progress ::
  "string \<Rightarrow> string \<Rightarrow> int \<Rightarrow> int \<Rightarrow> py_error + dl_signal list" where
  "Downloader_show_progress self_url file_name total_size now_size =
     (case show_progress file_name total_size now_size of
        Inl e \<Rightarrow> Inl e
      | Inr msg \<Rightarrow>
          (case progress_rate total_size now_size of
             Inl e \<Rightarrow> Inl e
           | Inr rate \<Rightarrow> Inr [Download_rate self_url rate, Download_proc msg]))"

section \<open>Dictionaries and job records\<close>

text \<open>
  A Python \<open>dict\<close> keeps its keys in insertion order; the worker loops take
  \<open>list(d.keys())[0]\<close>, so the order matters and a dictionary is an association list
  with distinct keys.  \<open>d[k] = v\<close> replaces the value of a key in place and appends a
  new key at the end; \<open>del d[k]\<close> raises \<open>KeyError\<close> for a missing key;
  \<open>d.update(e)\<close> stores the items of \<open>e\<close> one after the other.
\<close>

type_synonym ('k, 'v) dict = "('k \<times> 'v) list"

definition dict_in :: "'k \<Rightarrow> ('k, 'v) dict \<Rightarrow> bool" where
  "dict_in k d = (map_of d k \<noteq> None)"

definition dict_get :: "('k, 'v) dict \<Rightarrow> 'k \<Rightarrow> py_error + 'v" where
  "dict_get d k = (case map_of d k of None \<Rightarrow> Inl KeyError | Some v \<Rightarrow> Inr v)"

fun dict_set :: "('k, 'v) dict \<Rightarrow> 'k \<Rightarrow> 'v \<Rightarrow> ('k, 'v) dict" where
  "dict_set [] k v = [(k, v)]"
| "dict_set ((k', v') # d) k v =
     (if k' = k then (k, v) # d else (k', v') # dict_set d k v)"

definition dict_del :: "('k, 'v) dict \<Rightarrow> 'k \<Rightarrow> ('k, 'v) dict" where
  \<comment> \<open>the dictionary after \<open>del d[k]\<close>, for a key that is present\<close>
  "dict_del d k = filter (\<lambda>kv. fst kv \<noteq> k) d"

definition dict_update :: "('k, 'v) dict \<Rightarrow> ('k, 'v) dict \<Rightarrow> ('k, 'v) dict" where
  "dict_update d e = foldl (\<lambda>acc kv. dict_set acc (fst kv) (snd kv)) d e"

text \<open>The number of entries a dictionary has for a key.\<close>

definition entries :: "'k \<Rightarrow> ('k, 'v) dict \<Rightarrow> nat" where
  "entries k d = length (filter (\<lambda>kv. fst kv = k) d)"

text \<open>
  The value of the \<open>info\<close> field of a job: a status code of the backend or one of the
  texts of the source (in English here: "network connection error", "unknown error"
  with the exception's text, "network connection timed out", "unknown error" and
  "upload succeeded").
\<close>

datatype job_info =
    Info_code int
  | Info_network_error
  | Info_unknown_with string
  | Info_timeout
  | Info_unknown
  | Info_upload_ok

text \<open>\<open>DlJob\<close> and \<open>UpJob\<close> of tools.py, with their defaults.\<close>

record DlJob =
  dl_name :: string
  dl_url :: string
  dl_pwd :: string
  dl_path :: string
  dl_info :: "job_info option"
  dl_run :: bool
  dl_rate :: int

definition DlJob_default :: DlJob where
  "DlJob_default =
     \<lparr>dl_name = [], dl_url = [], dl_pwd = [], dl_path = [], dl_info = None,
      dl_run = False, dl_rate = 0\<rparr>"

record UpJob =
  up_furl :: string
  up_id :: int
  up_folder :: string
  up_info :: "job_info option"
  up_run :: bool
  up_rate :: int
  up_set_pwd :: bool
  up_pwd :: string
  up_set_desc :: bool
  up_desc :: string

definition UpJob_default :: UpJob where
  "UpJob_default =
     \<lparr>up_furl = [], up_id = - 1, up_folder = [], up_info = None, up_run = False,
      up_rate = 0, up_set_pwd = False, up_pwd = [], up_set_desc = False, up_desc = []\<rparr>"

section \<open>workers.py: the download manager\<close>

text \<open>
  A \<open>Downloader\<close> object: the values \<open>set_values\<close> stores, the \<open>_stopped\<close> flag and
  whether its thread is running (\<open>isRunning()\<close>).  \<open>set_values\<close> and \<open>start()\<close> start
  the thread.  \<open>stop()\<close> sets the flag and calls \<open>terminate()\<close>, and does not wait: when
  \<open>stop()\<close> returns the thread is still running, and it ends later, as a step of its
  own (\<open>Thread_ends\<close> below).
\<close>

record downloader =
  w_name :: string
  w_url :: string
  w_pwd :: string
  w_save_path :: string
  w_stopped :: bool
  w_running :: bool

definition Downloader_init :: downloader where
  "Downloader_init =
     \<lparr>w_name = [], w_url = [], w_pwd = [], w_save_path = [], w_stopped = True,
      w_running = False\<rparr>"

definition Downloader_set_values ::
  "string \<Rightarrow> string \<Rightarrow> string \<Rightarrow> string \<Rightarrow> downloader \<Rightarrow> downloader" where
  "Downloader_set_values name url pwd save_path w =
     w\<lparr>w_name := name, w_url := url, w_pwd := pwd, w_save_path := save_path,
       w_running := True\<rparr>"

definition Downloader_start :: "downloader \<Rightarrow> downloader" where
  "Downloader_start w = w\<lparr>w_running := True\<rparr>"

definition Downloader_stop :: "downloader \<Rightarrow> downloader" where
  "Downloader_stop w = w\<lparr>w_stopped := True\<rparr>"

text \<open>
  The \<open>DownloadManager\<close>.  The dictionary \<open>downloaders\<close> holds references to
  \<open>Downloader\<close> objects: \<open>m_objects\<close> is the store of all the objects created so far,
  an object's reference is its index there, and \<open>del self.downloaders[url]\<close> removes
  the reference and leaves the object, whose thread goes on if it is running.
\<close>

record manager =
  m_tasks :: "(string, DlJob) dict"
  m_thread :: int
  m_count :: int
  m_is_work :: bool
  m_dl_ing :: "(string, DlJob) dict"
  m_downloaders :: "(string, nat) dict"
  m_objects :: "downloader list"

definition DownloadManager_init :: "int \<Rightarrow> manager" where
  "DownloadManager_init threads =
     \<lparr>m_tasks = [], m_thread = threads, m_count = 0, m_is_work = False, m_dl_ing = [],
      m_downloaders = [], m_objects = []\<rparr>"

definition set_thread :: "int \<Rightarrow> manager \<Rightarrow> manager" where
  "set_thread thread s = s\<lparr>m_thread := thread\<rparr>"

text \<open>
  \<open>add_task\<close> and \<open>add_tasks\<close>.  Both end with \<open>self.start()\<close>, which starts the
  dispatch loop \<open>run\<close> in the manager's thread when that thread is not running: \<open>run\<close>
  sets \<open>_is_work\<close> and loops, one iteration being \<open>run_iteration\<close> below.  The
  signals \<open>update\<close> and \<open>downloaders_msg\<close>, which the methods emit for the user
  interface and which change nothing in the manager, are left out.
\<close>

definition start_loop :: "manager \<Rightarrow> manager" where
  "start_loop s = s\<lparr>m_is_work := True\<rparr>"

definition add_task :: "DlJob \<Rightarrow> manager \<Rightarrow> manager" where
  "add_task task s =
     start_loop
       (if \<not> dict_in (dl_url task) (m_tasks s)
        then s\<lparr>m_tasks := dict_set (m_tasks s) (dl_url task) task\<rparr>
        else s)"

definition add_tasks :: "(string, DlJob) dict \<Rightarrow> manager \<Rightarrow> manager" where
  "add_tasks tasks s = start_loop (s\<lparr>m_tasks := dict_update (m_tasks s) tasks\<rparr>)"

text \<open>Reading and writing the object a URL refers to.\<close>

definition is_running :: "manager \<Rightarrow> nat \<Rightarrow> bool" where
  "is_running s r = (r < length (m_objects s) \<and> w_running (m_objects s ! r))"

definition update_object :: "nat \<Rightarrow> (downloader \<Rightarrow> downloader) \<Rightarrow> manager \<Rightarrow> manager" where
  "update_object r f s = s\<lparr>m_objects := (m_objects s)[r := f (m_objects s ! r)]\<rparr>"

text \<open>
  \<open>stop_task\<close>: a missing key of \<open>downloaders\<close> or of \<open>_dl_ing\<close> raises \<open>KeyError\<close>, the
  second one after the worker has been stopped.
\<close>

definition stop_task :: "DlJob \<Rightarrow> manager \<Rightarrow> manager outcome" where
  "stop_task task s =
     (case dict_get (m_downloaders s) (dl_url task) of
        Inl e \<Rightarrow> Raised e s
      | Inr r \<Rightarrow>
          if is_running s r then
            (let s1 = update_object r Downloader_stop s
             in case dict_get (m_dl_ing s1) (dl_url task) of
                  Inl e \<Rightarrow> Raised e s1
                | Inr job \<Rightarrow>
                    Done (s1\<lparr>m_dl_ing :=
                      dict_set (m_dl_ing s1) (dl_url task) (job\<lparr>dl_run := False\<rparr>)\<rparr>))
          else Done s)"

definition start_task :: "DlJob \<Rightarrow> manager \<Rightarrow> manager outcome" where
  "start_task task s =
     (if \<not> dict_in (dl_url task) (m_downloaders s) then Done (add_task task s)
      else case dict_get (m_downloaders s) (dl_url task) of
             Inl e \<Rightarrow> Raised e s
           | Inr r \<Rightarrow>
               if \<not> is_running s r then
                 (let s1 = update_object r Downloader_start s
                  in case dict_get (m_dl_ing s1) (dl_url task) of
                       Inl e \<Rightarrow> Raised e s1
                     | Inr job \<Rightarrow>
                         Done (s1\<lparr>m_dl_ing :=
                           dict_set (m_dl_ing s1) (dl_url task) (job\<lparr>dl_run := True\<rparr>)\<rparr>))
               else Done s)"

definition del_task :: "string \<Rightarrow> manager \<Rightarrow> manager" where
  "del_task url s =
     (let s1 = (if dict_in url (m_dl_ing s) then s\<lparr>m_dl_ing := dict_del (m_dl_ing s) url\<rparr>
                else s)
      in if dict_in url (m_downloaders s1)
         then s1\<lparr>m_downloaders := dict_del (m_downloaders s1) url\<rparr>
         else s1)"

text \<open>The slots connected to the signals of a worker.\<close>

definition ahead_error :: "string \<Rightarrow> job_info \<Rightarrow> manager \<Rightarrow> manager outcome" where
  "ahead_error url error s =
     (case dict_get (m_dl_ing s) url of
        Inl e \<Rightarrow> Raised e s
      | Inr job \<Rightarrow>
          Done (s\<lparr>m_dl_ing := dict_set (m_dl_ing s) url (job\<lparr>dl_info := Some error\<rparr>)\<rparr>))"

definition ahead_rate :: "string \<Rightarrow> int \<Rightarrow> manager \<Rightarrow> manager outcome" where
  "ahead_rate url rate s =
     (case dict_get (m_dl_ing s) url of
        Inl e \<Rightarrow> Raised e s
      | Inr job \<Rightarrow>
          Done (s\<lparr>m_dl_ing := dict_set (m_dl_ing s) url (job\<lparr>dl_rate := rate\<rparr>)\<rparr>))"

text \<open>
  The method \<open>_add_thread(url)\<close>: the count goes down before the reference is
  deleted, so a missing key raises after the decrement.  Its only caller is the function
  \<open>lambda: self._add_thread(url)\<close> that \<open>run\<close> connects to the \<open>finished\<close> signal of
  the \<open>Downloader\<close> it has just created.
\<close>

definition add_thread :: "string \<Rightarrow> manager \<Rightarrow> manager outcome" where
  "add_thread url s =
     (let s1 = s\<lparr>m_count := m_count s - 1\<rparr>
      in if dict_in url (m_downloaders s1)
         then Done (s1\<lparr>m_downloaders := dict_del (m_downloaders s1) url\<rparr>)
         else Raised KeyError s1)"

text \<open>
  One iteration of the loop of \<open>DownloadManager.run\<close>, when the loop is running.  With
  no pending task the loop ends and clears \<open>_is_work\<close>; while \<open>_count >= _thread\<close> it
  sleeps; otherwise it raises the count, takes the first pending task, creates its
  \<open>Downloader\<close>, registers it under the key, records the job as running in \<open>_dl_ing\<close>,
  starts the worker with the values of the task and deletes the task from the pending
  ones.
\<close>

definition run_iteration :: "manager \<Rightarrow> manager" where
  "run_iteration s =
     (if \<not> m_is_work s then s
      else case m_tasks s of
        [] \<Rightarrow> s\<lparr>m_is_work := False\<rparr>
      | (url, task) # _ \<Rightarrow>
          if m_thread s \<le> m_count s then s
          else
            (let r = length (m_objects s);
                 w = Downloader_set_values (dl_name task) (dl_url task) (dl_pwd task)
                       (dl_path task) Downloader_init
             in s\<lparr>m_count := m_count s + 1,
                  m_objects := m_objects s @ [w],
                  m_downloaders := dict_set (m_downloaders s) url r,
                  m_dl_ing := dict_set (m_dl_ing s) url (task\<lparr>dl_run := True\<rparr>),
                  m_tasks := dict_del (m_tasks s) url\<rparr>))"

text \<open>
  What happens to a manager, one step at a time: a call of one of its methods by the
  user interface, an iteration of its dispatch loop, the end of the thread of a worker
  (by itself, when the download is over or has failed, or some time after \<open>stop()\<close> has
  terminated it), and the delivery of the signals \<open>download_rate\<close> and
  \<open>download_failed\<close> of a worker to the slots \<open>_ahead_rate\<close> and \<open>_ahead_error\<close>, which
  are bound methods of the manager and run in the thread of the user interface.

  A call of \<open>_add_thread\<close> is not among the steps.  The \<open>Downloader\<close> and the function
  connected to its \<open>finished\<close> signal are created inside \<open>run\<close>, that is in the
  manager's own thread; a signal sent from the worker's thread to a receiver of another
  thread is queued for the event loop of the receiver's thread, and the manager's thread
  executes \<open>run\<close> and has no event loop.  So the signal is never delivered, and the count
  \<open>_count\<close> is never lowered.  The manager's own \<open>stop()\<close>, which clears \<open>_is_work\<close> and
  which the loop does not look at, is not among the steps either: in the model
  \<open>m_is_work\<close> says that the loop is running.
\<close>

datatype event =
    Add_task DlJob
  | Add_tasks "(string, DlJob) dict"
  | Start_task DlJob
  | Stop_task DlJob
  | Del_task string
  | Set_thread int
  | Dispatch
  | Thread_ends nat
  | Rate string int
  | Failed string job_info

fun step :: "event \<Rightarrow> manager \<Rightarrow> manager outcome" where
  "step (Add_task task) s = Done (add_task task s)"
| "step (Add_tasks tasks) s = Done (add_tasks tasks s)"
| "step (Start_task task) s = start_task task s"
| "step (Stop_task task) s = stop_task task s"
| "step (Del_task url) s = Done (del_task url s)"
| "step (Set_thread n) s = Done (set_thread n s)"
| "step Dispatch s = Done (run_iteration s)"
| "step (Thread_ends r) s = Done (update_object r (\<lambda>w. w\<lparr>w_running := False\<rparr>) s)"
| "step (Rate url rate) s = ahead_rate url rate s"
| "step (Failed url error) s = ahead_error url error s"

text \<open>A sequence of steps stops at the first exception.\<close>

fun steps :: "event list \<Rightarrow> manager \<Rightarrow> manager outcome" where
  "steps [] s = Done s"
| "steps (e # es) s =
     (case step e s of
        Done s' \<Rightarrow> steps es s'
      | Raised x s' \<Rightarrow> Raised x s'
      | Blocked s' \<Rightarrow> Blocked s')"

text \<open>The workers in flight: the \<open>Downloader\<close> objects whose thread is running.\<close>

definition in_flight :: "manager \<Rightarrow> nat" where
  "in_flight s = length (filter w_running (m_objects s))"

text \<open>The steps that leave the ceiling as it is.\<close>

fun keeps_ceiling :: "event \<Rightarrow> bool" where
  "keeps_ceiling (Set_thread n) = False"
| "keeps_ceiling _ = True"

text \<open>
  The count covers the \<open>Downloader\<close> objects created so far and is within the ceiling.
\<close>

definition counted :: "manager \<Rightarrow> bool" where
  "counted s = (int (length (m_objects s)) = m_count s \<and> m_count s \<le> m_thread s)"

text \<open>Two jobs, under the keys \<open>u1\<close> and \<open>u2\<close>, for the examples.\<close>

definition job_u1 :: DlJob where
  "job_u1 = DlJob_default\<lparr>dl_name := ''a'', dl_url := ''u1''\<rparr>"

definition job_u2 :: DlJob where
  "job_u2 = DlJob_default\<lparr>dl_name := ''b'', dl_url := ''u2''\<rparr>"

section \<open>workers.py: the upload worker\<close>

text \<open>
  What \<open>UploadWorker\<close> sends out, in the order of the sending: the signals \<open>code\<close>
  (a text for the status bar: "file does not exist", "uploading the folder",
  "uploading the file", "network timeout", or a progress line) and \<open>update\<close> (one job
  record under its key), and the calls of the backend client.
\<close>

datatype up_effect =
    Code_not_found string
  | Code_upload_dir string
  | Code_upload_file string
  | Code_timeout
  | Code_progress progress_msg
  | Update string UpJob
  | Call_upload_dir string int
  | Call_upload_file string int
  | Call_set_passwd int string bool
  | Call_set_desc int string bool

record upload_worker =
  uw_tasks :: "(string, UpJob) dict"
  uw_mutex :: bool    \<comment> \<open>the mutex is locked\<close>
  uw_is_work :: bool
  uw_furl :: string
  uw_task :: "UpJob option"

definition UploadWorker_init :: upload_worker where
  "UploadWorker_init =
     \<lparr>uw_tasks = [], uw_mutex = False, uw_is_work = False, uw_furl = [], uw_task = None\<rparr>"

type_synonym up_state = "upload_worker \<times> up_effect list"

text \<open>
  \<open>UploadWorker._show_progress\<close>: the text, then the rate, which replaces the \<open>rate\<close> of
  the current job record; the record is sent on \<open>update\<close> and the text on \<open>code\<close>.
\<close>

definition UploadWorker_show_progress ::
  "string \<Rightarrow> int \<Rightarrow> int \<Rightarrow> up_state \<Rightarrow> py_error + up_state" where
  "UploadWorker_show_progress file_name total_size now_size st =
     (case show_progress file_name total_size now_size of
        Inl e \<Rightarrow> Inl e
      | Inr msg \<Rightarrow>
          (case progress_rate total_size now_size of
             Inl e \<Rightarrow> Inl e
           | Inr rate \<Rightarrow>
               (case uw_task (fst st) of
                  None \<Rightarrow> Inl AttributeError
                | Some task \<Rightarrow>
                    (let task' = task\<lparr>up_rate := rate\<rparr>
                     in Inr ((fst st)\<lparr>uw_task := Some task'\<rparr>,
                             snd st @ [Update (uw_furl (fst st)) task', Code_progress msg])))))"

definition UploadWorker_add_task :: "UpJob \<Rightarrow> upload_worker \<Rightarrow> upload_worker" where
  "UploadWorker_add_task task w =
     (if \<not> dict_in (up_furl task) (uw_tasks w)
      then w\<lparr>uw_tasks := dict_set (uw_tasks w) (up_furl task) task\<rparr>
      else w)"

definition UploadWorker_add_tasks :: "(string, UpJob) dict \<Rightarrow> upload_worker \<Rightarrow> upload_worker" where
  "UploadWorker_add_tasks tasks w = w\<lparr>uw_tasks := dict_update (uw_tasks w) tasks\<rparr>"

text \<open>
  The world around a run of the worker, fixed during the run: which paths exist and
  which are directories, and what each call of the backend client does.  An upload
  reports progress through the callback, sample by sample (name, total, now), and then
  returns or raises; an exception of the callback leaves the upload as it is raised.
\<close>

record upload_env =
  path_exists :: "string \<Rightarrow> bool"
  path_isdir :: "string \<Rightarrow> bool"
  upload_file :: "string \<Rightarrow> int \<Rightarrow> (string \<times> int \<times> int) list \<times> (status \<times> int \<times> bool) call"
  upload_dir :: "string \<Rightarrow> int \<Rightarrow> (string \<times> int \<times> int) list \<times> unit call"
  set_passwd :: "int \<Rightarrow> string \<Rightarrow> bool \<Rightarrow> status call"
  set_desc :: "int \<Rightarrow> string \<Rightarrow> bool \<Rightarrow> status call"

fun report_progress ::
  "(string \<times> int \<times> int) list \<Rightarrow> up_state \<Rightarrow> up_state \<times> py_error option" where
  "report_progress [] st = (st, None)"
| "report_progress ((file_name, total_size, now_size) # samples) st =
     (case UploadWorker_show_progress file_name total_size now_size st of
        Inl e \<Rightarrow> (st, Some e)
      | Inr st' \<Rightarrow> report_progress samples st')"

definition run_call :: "(string \<times> int \<times> int) list \<times> 'a call \<Rightarrow> up_state \<Rightarrow> up_state \<times> 'a call" where
  \<comment> \<open>a call of the backend client that reports progress through the callback\<close>
  "run_call behaviour st =
     (case report_progress (fst behaviour) st of
        (st', None) \<Rightarrow> (st', snd behaviour)
      | (st', Some e) \<Rightarrow> (st', Raises e))"

definition emit :: "up_effect \<Rightarrow> up_state \<Rightarrow> up_state" where
  "emit x st = (fst st, snd st @ [x])"

definition set_info :: "job_info \<Rightarrow> up_state \<Rightarrow> up_state" where
  \<comment> \<open>\<open>self._task = self._task._replace(info=...)\<close>\<close>
  "set_info i st = ((fst st)\<lparr>uw_task := map_option (\<lambda>t. t\<lparr>up_info := Some i\<rparr>) (uw_task (fst st))\<rparr>, snd st)"

definition emit_update :: "up_state \<Rightarrow> up_state" where
  \<comment> \<open>\<open>self.update.emit({self._furl: self._task})\<close>\<close>
  "emit_update st =
     (case uw_task (fst st) of
        None \<Rightarrow> st
      | Some t \<Rightarrow> emit (Update (uw_furl (fst st)) t) st)"

definition del_current :: "up_state \<Rightarrow> up_state" where
  \<comment> \<open>\<open>del self._tasks[self._furl]\<close>\<close>
  "del_current st = ((fst st)\<lparr>uw_tasks := dict_del (uw_tasks (fst st)) (uw_furl (fst st))\<rparr>, snd st)"

text \<open>
  One iteration of the loop of \<open>UploadWorker.run\<close>: the loop ends, goes on with the next
  iteration, or is left by an exception that no handler of \<open>run\<close> catches.
\<close>

datatype iteration = Loop_break up_state | Loop_next up_state | Loop_raise py_error up_state

text \<open>
  The follow-up calls after an upload that returned; they stand in the \<open>else\<close> part of
  the \<open>try\<close> statement, where an exception is not caught.
\<close>

definition follow_up ::
  "upload_env \<Rightarrow> UpJob \<Rightarrow> status \<Rightarrow> int \<Rightarrow> bool \<Rightarrow> up_state \<Rightarrow> up_state \<times> py_error option" where
  "follow_up env task code fid isfile st =
     (if code = SUCCESS then
        (let (st1, r1) =
               (if up_set_pwd task
                then (emit (Call_set_passwd fid (up_pwd task) isfile) st,
                      case set_passwd env fid (up_pwd task) isfile of
                        Returns _ \<Rightarrow> None | Raises e \<Rightarrow> Some e)
                else (st, None))
         in case r1 of
              Some e \<Rightarrow> (st1, Some e)
            | None \<Rightarrow>
                (if up_set_desc task
                 then (emit (Call_set_desc fid (up_desc task) isfile) st1,
                       case set_desc env fid (up_desc task) isfile of
                         Returns _ \<Rightarrow> None | Raises e \<Rightarrow> Some e)
                 else (st1, None)))
      else (st, None))"

definition upload_iteration :: "upload_env \<Rightarrow> up_state \<Rightarrow> iteration" where
  "upload_iteration env st =
     (case uw_tasks (fst st) of
        [] \<Rightarrow> Loop_break st
      | (furl, task) # _ \<Rightarrow>
          (let st0 = ((fst st)\<lparr>uw_furl := furl, uw_task := Some task\<rparr>, snd st)
           in if \<not> path_exists env furl then Loop_next (emit (Code_not_found furl) st0)
              else if path_isdir env furl then
                (let st1 = emit (Call_upload_dir furl (up_id task)) (emit (Code_upload_dir furl) st0)
                 in case run_call (upload_dir env furl (up_id task)) st1 of
                      (st2, Returns _) \<Rightarrow> Loop_next (del_current st2)
                    | (st2, Raises e) \<Rightarrow> Loop_raise e st2)
              else
                (let st1 = emit (Call_upload_file (up_furl task) (up_id task))
                             (emit (Code_upload_file furl) st0)
                 in case run_call (upload_file env (up_furl task) (up_id task)) st1 of
                      (st2, Raises e) \<Rightarrow>
                        (if e = TimeoutError
                         then Loop_next (del_current (emit_update (set_info Info_timeout
                                (emit Code_timeout st2))))
                         else Loop_next (del_current (emit_update (set_info Info_unknown st2))))
                    | (st2, Returns (code, fid, isfile)) \<Rightarrow>
                        (let st3 = set_info Info_upload_ok st2
                         in case uw_task (fst st3) of
                              None \<Rightarrow> Loop_raise AttributeError st3
                            | Some task3 \<Rightarrow>
                                (case follow_up env task3 code fid isfile st3 of
                                   (st4, None) \<Rightarrow> Loop_next (del_current st4)
                                 | (st4, Some e) \<Rightarrow> Loop_raise e st4)))))"

text \<open>
  The loop, with a bound on the number of iterations: \<open>None\<close> when the bound is reached
  before the loop has ended.
\<close>

fun upload_loop :: "nat \<Rightarrow> upload_env \<Rightarrow> up_state \<Rightarrow> up_state outcome option" where
  "upload_loop 0 env st = None"
| "upload_loop (Suc n) env st =
     (case upload_iteration env st of
        Loop_break st' \<Rightarrow> Some (Done st')
      | Loop_next st' \<Rightarrow> upload_loop n env st'
      | Loop_raise e st' \<Rightarrow> Some (Raised e st'))"

text \<open>
  \<open>UploadWorker.run\<close>: nothing when \<open>_is_work\<close> is set; otherwise the mutex is locked,
  the flag set, the loop run, and the flag cleared and the mutex unlocked when the loop
  has ended; an exception that leaves the loop leaves the flag and the mutex as they
  are.
\<close>

definition UploadWorker_run :: "nat \<Rightarrow> upload_env \<Rightarrow> upload_worker \<Rightarrow> up_state outcome option" where
  "UploadWorker_run n env w =
     (if \<not> uw_is_work w then
        (if uw_mutex w then Some (Blocked (w, []))
         else case upload_loop n env (w\<lparr>uw_mutex := True, uw_is_work := True\<rparr>, []) of
                None \<Rightarrow> None
              | Some (Done st) \<Rightarrow>
                  Some (Done ((fst st)\<lparr>uw_is_work := False, uw_mutex := False\<rparr>, snd st))
              | Some other \<Rightarrow> Some other)
      else Some (Done (w, [])))"

text \<open>The calls of the backend client among the effects of a run.\<close>

fun is_follow_up :: "up_effect \<Rightarrow> bool" where
  "is_follow_up (Call_set_passwd _ _ _) = True"
| "is_follow_up (Call_set_desc _ _ _) = True"
| "is_follow_up _ = False"

text \<open>
  For the examples: two jobs, for the paths \<open>/missing\<close> and \<open>/a\<close>, the second one with
  both directives; and two worlds where \<open>/missing\<close> does not exist, every other path is
  a file and no call raises, in which an upload returns \<open>SUCCESS\<close> or \<open>FAILED\<close>.
\<close>

definition up_missing :: UpJob where
  "up_missing = UpJob_default\<lparr>up_furl := ''/missing''\<rparr>"

definition up_a :: UpJob where
  "up_a = UpJob_default\<lparr>up_furl := ''/a'', up_set_pwd := True, up_pwd := ''xy'',
                         up_set_desc := True, up_desc := ''d''\<rparr>"

definition env_with :: "status \<Rightarrow> upload_env" where
  "env_with code =
     \<lparr>path_exists = (\<lambda>p. p \<noteq> ''/missing''),
      path_isdir = (\<lambda>p. False),
      upload_file = (\<lambda>p folder_id. ([], Returns (code, 7, True))),
      upload_dir = (\<lambda>p folder_id. ([], Returns ())),
      set_passwd = (\<lambda>fid pwd is_file. Returns SUCCESS),
      set_desc = (\<lambda>fid desc is_file. Returns SUCCESS)\<rparr>"

section \<open>workers.py: the workers of one action\<close>

text \<open>
  A worker of one action keeps a mutex and the flag \<open>_is_work\<close>.  Its \<open>run\<close> sends
  signals and calls the backend client; the model returns the worker after the run and
  what the run did, in order: locking and unlocking the mutex, the calls, the signals
  and the entries in the log.
\<close>

subsection \<open>GetSharedInfo\<close>












subsection \<open>SetPwdWorker\<close>











subsection \<open>LoginLuncher\<close>


type_synonym cookie = "(string \<times> string) list"


record login_worker =
  lg_username :: string
  lg_password :: string
  lg_cookie :: "cookie option"


definition LoginLuncher_set_values ::
  "string \<Rightarrow> string \<Rightarrow> cookie option \<Rightarrow> login_worker \<Rightarrow> login_worker" where
  "LoginLuncher_set_values username password cookie self =
     self\<lparr>lg_username := username, lg_password := password, lg_cookie := cookie\<rparr>"







subsection \<open>Examples\<close>






section \<open>Properties of the credential obfuscation\<close>


lemma of_char_int_range: "0 \<le> (of_char x :: int) \<and> (of_char x :: int) < 256"
proof -
  have a: "0 \<le> (of_char x :: int) mod 256" by (rule pos_mod_sign) simp
  have b: "(of_char x :: int) mod 256 < 256" by (rule pos_mod_bound) simp
  show ?thesis using a b by (simp only: of_char_mod_256)
qed

lemma xor_key_range:
  fixes b :: int
  assumes "0 \<le> b" "b < 256"
  shows "0 \<le> b XOR 152 \<and> b XOR 152 < 256"
proof -
  have "b XOR 152 < 2 ^ 8" by (rule XOR_upper) (use assms in simp_all)
  then show ?thesis using assms by simp
qed

lemma xor_key_twice: "(b XOR k) XOR k = (b :: int)"
  by (simp add: xor.assoc)

lemma encrypt_byte:
  fixes x :: char
  defines "b2 \<equiv> (of_char x :: int) XOR 152"
  shows "store_byte (b2 mod 19 + 46) = Inr (char_of (b2 mod 19 + 46))"
    and "store_byte (b2 div 19 + 46) = Inr (char_of (b2 div 19 + 46))"
    and "(of_char (char_of (b2 mod 19 + 46) :: char) :: int) = b2 mod 19 + 46"
    and "(of_char (char_of (b2 div 19 + 46) :: char) :: int) = b2 div 19 + 46"
    and "b2 mod 19 + 46 \<le> 64" and "b2 div 19 + 46 \<le> 59"
    and "0 \<le> b2 mod 19" and "0 \<le> b2 div 19"
proof -
  have r: "0 \<le> b2 \<and> b2 < 256"
    unfolding b2_def using xor_key_range of_char_int_range by blast
  have m: "0 \<le> b2 mod 19 \<and> b2 mod 19 < 19" by simp
  have d: "0 \<le> b2 div 19 \<and> b2 div 19 \<le> 13" using r by auto
  show "store_byte (b2 mod 19 + 46) = Inr (char_of (b2 mod 19 + 46))"
    using m by (simp add: store_byte_def)
  show "store_byte (b2 div 19 + 46) = Inr (char_of (b2 div 19 + 46))"
    using d by (simp add: store_byte_def)
  show "(of_char (char_of (b2 mod 19 + 46) :: char) :: int) = b2 mod 19 + 46"
    using m by simp
  show "(of_char (char_of (b2 div 19 + 46) :: char) :: int) = b2 div 19 + 46"
    using d by simp
  show "b2 mod 19 + 46 \<le> 64" using m by simp
  show "b2 div 19 + 46 \<le> 59" using d by simp
  show "0 \<le> b2 mod 19" using m by simp
  show "0 \<le> b2 div 19" using d by simp
qed

lemma decrypt_byte:
  fixes x :: char
  defines "b2 \<equiv> (of_char x :: int) XOR 152"
  shows "store_byte ((b2 div 19 * 19 + b2 mod 19) XOR 152) = Inr x"
proof -
  have "(b2 div 19 * 19 + b2 mod 19) XOR 152 = of_char x"
    unfolding b2_def by (simp add: xor.assoc)
  then show ?thesis using of_char_int_range[of x] by (simp add: store_byte_def)
qed

lemma encrypt_loop_ok:
  "\<exists>c. encrypt_loop 152 s = Inr c \<and> length c = 2 * length s \<and> obfuscated c \<and>
       decrypt_loop 152 c = Inr s"
proof (induction s)
  case Nil
  show ?case by simp
next
  case (Cons x xs)
  then obtain c where c: "encrypt_loop 152 xs = Inr c" "length c = 2 * length xs"
    "obfuscated c" "decrypt_loop 152 c = Inr xs" by blast
  let ?b2 = "(of_char x :: int) XOR 152"
  let ?y1 = "char_of (?b2 mod 19 + 46) :: char"
  let ?y2 = "char_of (?b2 div 19 + 46) :: char"
  have e: "encrypt_loop 152 (x # xs) = Inr (?y1 # ?y2 # c)"
    using c(1) encrypt_byte(1,2)[of x] by (simp add: Let_def)
  have o: "obfuscated (?y1 # ?y2 # c)"
    using c(3) encrypt_byte(3-8)[of x] by simp
  have d: "decrypt_loop 152 (?y1 # ?y2 # c) = Inr (x # xs)"
    using c(4) encrypt_byte(3,4)[of x] decrypt_byte[of x] by (simp add: Let_def)
  show ?case using e o d c(2) by simp
qed

lemma utf8_byte_range:
  assumes "c < 1114112" "b \<in> set (utf8_code_point c)"
  shows "0 \<le> b \<and> b < 256"
  using assms by (auto simp: utf8_code_point_def Let_def split: if_splits)

lemma decode_two_bytes:
  fixes d m :: int
  assumes "2 \<le> d" "d \<le> 31" "0 \<le> m" "m \<le> 63"
  shows "utf8_code_points ([192 + d, 128 + m] @ bs) =
         cons_code_point (nat (d * 64 + m)) (utf8_code_points bs)"
  using assms by (simp add: cont_byte_def)

lemma decode_three_bytes:
  fixes d m1 m2 :: int
  assumes "0 \<le> d" "d \<le> 15" "0 \<le> m1" "m1 \<le> 63" "0 \<le> m2" "m2 \<le> 63"
    and "d = 0 \<longrightarrow> 32 \<le> m1" and "d = 13 \<longrightarrow> m1 \<le> 31"
  shows "utf8_code_points ([224 + d, 128 + m1, 128 + m2] @ bs) =
         cons_code_point (nat (d * 4096 + m1 * 64 + m2)) (utf8_code_points bs)"
  using assms by (simp add: cont_byte_def)

lemma decode_four_bytes:
  fixes d m1 m2 m3 :: int
  assumes "0 \<le> d" "d \<le> 4" "0 \<le> m1" "m1 \<le> 63" "0 \<le> m2" "m2 \<le> 63" "0 \<le> m3" "m3 \<le> 63"
    and "d = 0 \<longrightarrow> 16 \<le> m1" and "d = 4 \<longrightarrow> m1 \<le> 15"
  shows "utf8_code_points ([240 + d, 128 + m1, 128 + m2, 128 + m3] @ bs) =
         cons_code_point (nat (d * 262144 + m1 * 4096 + m2 * 64 + m3)) (utf8_code_points bs)"
  using assms by (simp add: cont_byte_def)

lemma split_64:
  fixes v :: int
  shows "v = v div 64 * 64 + v mod 64 \<and> 0 \<le> v mod 64 \<and> v mod 64 \<le> 63"
  by simp

lemma decode_code_point:
  assumes "c < 1114112" "\<not> surrogate c"
  shows "utf8_code_points (utf8_code_point c @ bs) = cons_code_point c (utf8_code_points bs)"
proof -
  define v where "v = int c"
  define w1 where "w1 = v div 64"
  define w2 where "w2 = w1 div 64"
  define w3 where "w3 = w2 div 64"
  define m0 where "m0 = v mod 64"
  define m1 where "m1 = w1 mod 64"
  define m2 where "m2 = w2 mod 64"
  have v: "0 \<le> v" "v < 1114112" "\<not> (55296 \<le> v \<and> v \<le> 57343)" "nat v = c"
    using assms by (simp_all add: v_def surrogate_def)
  have d2: "v div 4096 = w2" unfolding w2_def w1_def by (simp add: zdiv_zmult2_eq)
  have d3: "v div 262144 = w3" unfolding w3_def w2_def w1_def by (simp add: zdiv_zmult2_eq)
  have s0: "v = w1 * 64 + m0" "0 \<le> m0" "m0 \<le> 63"
    using split_64[of v] by (simp_all add: w1_def m0_def)
  have s1: "w1 = w2 * 64 + m1" "0 \<le> m1" "m1 \<le> 63"
    using split_64[of w1] by (simp_all add: w2_def m1_def)
  have s2: "w2 = w3 * 64 + m2" "0 \<le> m2" "m2 \<le> 63"
    using split_64[of w2] by (simp_all add: w3_def m2_def)
  consider "v < 128" | "128 \<le> v" "v < 2048" | "2048 \<le> v" "v < 65536" | "65536 \<le> v"
    by linarith
  then show ?thesis
  proof cases
    case 1
    then have "utf8_code_point c = [v]" by (simp add: utf8_code_point_def v_def Let_def)
    then show ?thesis using 1 v by simp
  next
    case 2
    then have e: "utf8_code_point c = [192 + w1, 128 + m0]"
      by (simp add: utf8_code_point_def v_def w1_def m0_def Let_def)
    have r: "2 \<le> w1" "w1 \<le> 31" using 2 s0 by linarith+
    have "nat (w1 * 64 + m0) = c" using s0(1) v(4) by simp
    then show ?thesis using decode_two_bytes[OF r s0(2,3), of bs] e by simp
  next
    case 3
    then have e: "utf8_code_point c = [224 + w2, 128 + m1, 128 + m0]"
      using d2 by (simp add: utf8_code_point_def w1_def m0_def m1_def Let_def flip: v_def)
    have r: "0 \<le> w2" "w2 \<le> 15" using 3 s0 s1 by linarith+
    have a: "w2 = 0 \<longrightarrow> 32 \<le> m1" using 3 s0 s1 by linarith
    have b: "w2 = 13 \<longrightarrow> m1 \<le> 31" using 3 v(3) s0 s1 by linarith
    have "nat (w2 * 4096 + m1 * 64 + m0) = c" using s0(1) s1(1) v(4) by simp
    then show ?thesis
      using decode_three_bytes[OF r s1(2,3) s0(2,3) a b, of bs] e by simp
  next
    case 4
    then have e: "utf8_code_point c = [240 + w3, 128 + m2, 128 + m1, 128 + m0]"
      using d2 d3
      by (simp add: utf8_code_point_def w1_def m0_def m1_def m2_def Let_def flip: v_def)
    have r: "0 \<le> w3" "w3 \<le> 4" using 4 v(2) s0 s1 s2 by linarith+
    have a: "w3 = 0 \<longrightarrow> 16 \<le> m2" using 4 s0 s1 s2 by linarith
    have b: "w3 = 4 \<longrightarrow> m2 \<le> 15" using v(2) s0 s1 s2 by linarith
    have "nat (w3 * 262144 + m2 * 4096 + m1 * 64 + m0) = c"
      using s0(1) s1(1) s2(1) v(4) by simp
    then show ?thesis
      using decode_four_bytes[OF r s2(2,3) s1(2,3) s0(2,3) a b, of bs] e by simp
  qed
qed

lemma utf8_roundtrip:
  assumes "list_all (\<lambda>c. c < 1114112 \<and> \<not> surrogate c) s"
  shows "utf8_code_points (concat (map utf8_code_point s)) = Inr s"
  using assms
  by (induction s) (simp_all add: decode_code_point cons_code_point_def)

lemma utf8_bytes_range:
  assumes "list_all (\<lambda>c. c < 1114112) s"
  shows "list_all (\<lambda>b. 0 \<le> b \<and> b < 256) (concat (map utf8_code_point s))"
  using assms
proof (induction s)
  case Nil
  show ?case by simp
next
  case (Cons c s)
  then have "list_all (\<lambda>b. 0 \<le> b \<and> b < 256) (utf8_code_point c)"
    using utf8_byte_range[of c] by (simp add: list_all_iff)
  then show ?case using Cons by simp
qed

lemma of_char_char_of:
  assumes "list_all (\<lambda>b. 0 \<le> b \<and> b < 256) (bs :: int list)"
  shows "map of_char (map char_of bs :: string) = bs"
  using assms by (induction bs) simp_all

lemma encodable_iff:
  "encodable s = list_all (\<lambda>c. c < 1114112 \<and> \<not> surrogate c) s"
  by (induction s) (auto simp: encodable_def is_py_str_def)

lemma encode_decode_utf8:
  assumes "encodable s"
  shows "\<exists>b. encode_utf8 s = Inr b \<and> decode_utf8 b = Inr s"
proof -
  have a: "list_all (\<lambda>c. c < 1114112 \<and> \<not> surrogate c) s"
    using assms by (simp add: encodable_iff)
  have "list_all (\<lambda>c. c < 1114112) s" using assms by (simp add: encodable_def is_py_str_def)
  from of_char_char_of[OF utf8_bytes_range[OF this]] utf8_roundtrip[OF a]
  have "decode_utf8 (map char_of (concat (map utf8_code_point s))) = Inr s"
    by (simp add: decode_utf8_def)
  moreover have "encode_utf8 s = Inr (map char_of (concat (map utf8_code_point s)))"
    using assms by (simp add: encode_utf8_def encodable_def)
  ultimately show ?thesis by simp
qed

lemma obfuscated_ascii: "obfuscated c \<Longrightarrow> list_all (\<lambda>x. (of_char x :: int) \<le> 127) c"
  by (induction c rule: obfuscated.induct) auto

lemma decode_ascii:
  assumes "list_all (\<lambda>x. (of_char x :: int) \<le> 127) c"
  shows "decode_utf8 c = Inr (map of_char c)"
  using assms unfolding decode_utf8_def
  by (induction c) (simp_all add: cons_code_point_def nat_of_char)

lemma encode_ascii:
  assumes "list_all (\<lambda>x. (of_char x :: int) \<le> 127) c"
  shows "encode_utf8 (map of_char c) = Inr c"
proof -
  have "map char_of (concat (map utf8_code_point (map of_char c))) = c \<and>
        \<not> list_ex surrogate (map of_char c)"
    using assms
  proof (induction c)
    case Nil
    show ?case by simp
  next
    case (Cons x c)
    have i: "int (of_char x) = (of_char x :: int)" by (rule of_nat_of_char)
    have l: "int (of_char x) \<le> 127" using Cons.prems i by simp
    then have n: "(of_char x :: nat) \<le> 127" by linarith
    have "utf8_code_point (of_char x) = [of_char x]"
      using l i by (simp add: utf8_code_point_def)
    moreover have "\<not> surrogate (of_char x)" using n by (simp add: surrogate_def)
    ultimately show ?case using Cons by simp
  qed
  then show ?thesis by (simp add: encode_utf8_def)
qed

lemma encrypt_ok:
  assumes "encodable s"
  shows "\<exists>b c. encode_utf8 s = Inr b \<and> encrypt_loop KEY b = Inr c \<and> obfuscated c \<and>
           even (length c) \<and> c = [] = (s = []) \<and> decode_utf8 c = Inr (map of_char c) \<and>
           encrypt KEY s = Inr (map of_char c) \<and> decrypt KEY (map of_char c) = Inr s"
proof -
  from encode_decode_utf8[OF assms] obtain b where
    b: "encode_utf8 s = Inr b" "decode_utf8 b = Inr s" by blast
  obtain c where c: "encrypt_loop 152 b = Inr c" "length c = 2 * length b"
    "obfuscated c" "decrypt_loop 152 c = Inr b"
    using encrypt_loop_ok by blast
  have a: "list_all (\<lambda>x. (of_char x :: int) \<le> 127) c" using c(3) by (rule obfuscated_ascii)
  have d: "decode_utf8 c = Inr (map of_char c)" using a by (rule decode_ascii)
  have e: "encode_utf8 (map of_char c) = Inr c" using a by (rule encode_ascii)
  have "b = [] = (s = [])"
    using b by (cases s) (auto simp: encode_utf8_def decode_utf8_def split: if_splits)
  then have z: "c = [] = (s = [])" using c(2) by auto
  have "encrypt KEY s = Inr (map of_char c)"
    using b(1) c(1) d by (simp add: encrypt_def KEY_def)
  moreover have "decrypt KEY (map of_char c) = Inr s"
    using e c(2,4) b(2) by (simp add: decrypt_def KEY_def)
  ultimately show ?thesis using b(1) c d z by (auto simp: KEY_def)
qed

lemma encode_items_ok:
  "list_all (\<lambda>kv. encodable (snd kv)) kvs \<Longrightarrow>
   \<exists>r. encode_items kvs = Inr r \<and> decode_items r = Inr kvs"
proof (induction kvs)
  case Nil
  show ?case by simp
next
  case (Cons kv kvs)
  obtain k v where kv: "kv = (k, v)" by (cases kv)
  from Cons.prems kv have v: "encodable v" and rest: "list_all (\<lambda>kv. encodable (snd kv)) kvs"
    by simp_all
  from encrypt_ok[OF v] obtain c where c: "encrypt KEY v = Inr c" "decrypt KEY c = Inr v"
    by blast
  from Cons.IH[OF rest] obtain r where r: "encode_items kvs = Inr r" "decode_items r = Inr kvs"
    by blast
  show ?case using kv c r by simp
qed

lemma encode_str_ok:
  assumes "encodable s" "s \<noteq> []"
  shows "\<exists>c. encode (PStr s) = Inr (PStr c) \<and> decode (PStr c) = PStr s"
proof -
  from encrypt_ok[OF assms(1)] obtain c where c: "c = [] = (s = [])"
    "encrypt KEY s = Inr (map of_char c)" "decrypt KEY (map of_char c) = Inr s" by blast
  from c(1) assms(2) have "(map of_char c :: py_str) \<noteq> []" by simp
  then show ?thesis using c assms(2) by simp
qed

text \<open>
  Claim C10, as the code has it.  For every \<open>str\<close> \<open>s\<close> that UTF-8 can encode, that is
  without a surrogate code point: \<open>encrypt(KEY, s)\<close> returns; the bytes \<open>c\<close> it has
  produced are of even number and are pairs of a remainder byte in 46..64 and a quotient
  byte in 46..59; they decode as UTF-8, to the string with these bytes as its code
  points, which is the result; and \<open>decrypt(KEY, .)\<close> gives \<open>s\<close> back from it.  A
  \<open>UserInfo\<close> built from a non-empty name, a non-empty password and a cookie dictionary
  whose values are such strings returns exactly these values from its \<open>name\<close>, \<open>pwd\<close>
  and \<open>cookie\<close> accessors.
\<close>

theorem obfuscation_roundtrip:
  assumes "encodable s"
    and "encodable name" and "name \<noteq> []"
    and "encodable pwd" and "pwd \<noteq> []"
    and "list_all (\<lambda>kv. encodable (snd kv)) kvs"
  shows "(\<exists>b c. encode_utf8 s = Inr b \<and> encrypt_loop KEY b = Inr c \<and> obfuscated c \<and>
              even (length c) \<and> decode_utf8 c = Inr (map of_char c) \<and>
              encrypt KEY s = Inr (map of_char c) \<and>
              decrypt KEY (map of_char c) = Inr s) \<and>
         (\<exists>u. UserInfo (PStr name) (PStr pwd) (PDict kvs) = Inr u \<and>
              get_name u = PStr name \<and> get_pwd u = PStr pwd \<and> get_cookie u = PDict kvs)"
proof
  from encrypt_ok[OF assms(1)]
  show "\<exists>b c. encode_utf8 s = Inr b \<and> encrypt_loop KEY b = Inr c \<and> obfuscated c \<and>
              even (length c) \<and> decode_utf8 c = Inr (map of_char c) \<and>
              encrypt KEY s = Inr (map of_char c) \<and>
              decrypt KEY (map of_char c) = Inr s"
    by blast
next
  from encode_str_ok[OF assms(2,3)] obtain n where
    n: "encode (PStr name) = Inr (PStr n)" "decode (PStr n) = PStr name" by blast
  from encode_str_ok[OF assms(4,5)] obtain p where
    p: "encode (PStr pwd) = Inr (PStr p)" "decode (PStr p) = PStr pwd" by blast
  from encode_items_ok[OF assms(6)] obtain r where
    r: "encode_items kvs = Inr r" "decode_items r = Inr kvs" by blast
  let ?u = "\<lparr>u_username = PStr n, u_pwd = PStr p, u_cookie = PDict r\<rparr>"
  have "UserInfo (PStr name) (PStr pwd) (PDict kvs) = Inr ?u"
    using n(1) p(1) r(1) by (simp add: UserInfo_def)
  moreover have "get_name ?u = PStr name" using n(2) by (simp add: get_name_def)
  moreover have "get_pwd ?u = PStr pwd" using p(2) by (simp add: get_pwd_def)
  moreover have "get_cookie ?u = PDict kvs" using r(2) by (simp add: get_cookie_def)
  ultimately show "\<exists>u. UserInfo (PStr name) (PStr pwd) (PDict kvs) = Inr u \<and>
              get_name u = PStr name \<and> get_pwd u = PStr pwd \<and> get_cookie u = PDict kvs"
    by blast
qed

text \<open>
  The theorem at a text with a code point for each length of encoding, the name \<open>me\<close>,
  the password \<open>pw\<close> and a one-entry cookie.
\<close>

theorem obfuscation_roundtrip_witness:
  "encodable str_sample \<and> encodable str_me \<and> str_me \<noteq> [] \<and> encodable str_pw \<and> str_pw \<noteq> [] \<and>
   list_all (\<lambda>kv. encodable (snd kv)) [(str_k, str_v)] \<and>
   (\<exists>b c. encode_utf8 str_sample = Inr b \<and> encrypt_loop KEY b = Inr c \<and> obfuscated c \<and>
          even (length c) \<and> decode_utf8 c = Inr (map of_char c) \<and>
          encrypt KEY str_sample = Inr (map of_char c) \<and>
          decrypt KEY (map of_char c) = Inr str_sample) \<and>
   (\<exists>u. UserInfo (PStr str_me) (PStr str_pw) (PDict [(str_k, str_v)]) = Inr u \<and>
        get_name u = PStr str_me \<and> get_pwd u = PStr str_pw \<and>
        get_cookie u = PDict [(str_k, str_v)])"
proof -
  have h: "encodable str_sample" "encodable str_me" "str_me \<noteq> []" "encodable str_pw"
    "str_pw \<noteq> []" "list_all (\<lambda>kv. encodable (snd kv)) [(str_k, str_v)]"
    by (simp_all add: encodable_def is_py_str_def surrogate_def str_sample_def str_me_def
        str_pw_def str_k_def str_v_def)
  show ?thesis using h obfuscation_roundtrip[OF h] by blast
qed

text \<open>
  Claim C10 as stated fails at two strings.  At the empty string: \<open>encode\<close> stores a
  falsy value as it is and \<open>decode\<close> returns \<open>None\<close> for a falsy value, so
  \<open>UserInfo(name="").name\<close> is \<open>None\<close> and not the empty string that was stored.  At
  the string of the one code point \<open>U+D800\<close>, a surrogate: \<open>encrypt\<close> raises
  \<open>UnicodeEncodeError\<close>, and so does \<open>UserInfo\<close> for this name.
\<close>

theorem obfuscation_counterexample:
  "UserInfo (PStr []) PNone PNone = Inr \<lparr>u_username = PStr [], u_pwd = PNone, u_cookie = PNone\<rparr> \<and>
   get_name \<lparr>u_username = PStr [], u_pwd = PNone, u_cookie = PNone\<rparr> = PNone \<and>
   PNone \<noteq> PStr [] \<and>
   is_py_str [55296] \<and>
   encrypt KEY [55296] = Inl UnicodeEncodeError \<and>
   UserInfo (PStr [55296]) PNone PNone = Inl UnicodeEncodeError"
  by (simp add: is_py_str_def UserInfo_def get_name_def encrypt_def encode_utf8_def
      surrogate_def)

section \<open>Properties of the float model\<close>

text \<open>Rounding to the nearest integer is off by at most a half, and exact on integers.\<close>


lemma rhe_int_error:
  assumes "0 \<le> n" "0 < d"
  shows "\<bar>2 * (round_half_even n d * d - n)\<bar> \<le> d"
proof -
  have n: "n = (n div d) * d + n mod d" by simp
  have r: "0 \<le> n mod d" "n mod d < d" using assms by simp_all
  let ?q = "n div d" and ?r = "n mod d"
  consider "2 * ?r < d" | "d < 2 * ?r" | "2 * ?r = d" by linarith
  then show ?thesis
  proof cases
    case 1
    then have "round_half_even n d = ?q" by (simp add: round_half_even_def Let_def)
    then have "round_half_even n d * d - n = - ?r" using n by (simp add: algebra_simps)
    then show ?thesis using 1 r by simp
  next
    case 2
    then have "round_half_even n d = ?q + 1" by (simp add: round_half_even_def Let_def)
    then have "round_half_even n d * d - n = d - ?r" using n by (simp add: algebra_simps)
    then show ?thesis using 2 r by simp
  next
    case 3
    then have "round_half_even n d = ?q \<or> round_half_even n d = ?q + 1"
      by (simp add: round_half_even_def Let_def)
    then have "round_half_even n d * d - n = - ?r \<or> round_half_even n d * d - n = d - ?r"
      using n by (auto simp add: algebra_simps)
    then show ?thesis using 3 r by auto
  qed
qed

lemma rhe_rat_error:
  assumes "0 \<le> n" "0 < d"
  shows "\<bar>of_int (round_half_even n d) - of_int n / of_int d\<bar> \<le> (1 / 2 :: rat)"
proof -
  let ?m = "round_half_even n d"
  have d: "(0::rat) < of_int d" using assms by simp
  have "of_int ?m - of_int n / of_int d = (of_int (?m * d - n) :: rat) / of_int d"
    using d by (simp add: field_simps)
  then have "\<bar>of_int ?m - of_int n / of_int d\<bar> = (of_int \<bar>?m * d - n\<bar> :: rat) / of_int d"
    using d by (simp add: abs_divide)
  also have "\<dots> \<le> 1 / 2"
  proof -
    from rhe_int_error[OF assms] have "2 * \<bar>?m * d - n\<bar> \<le> d"
      by (simp only: abs_mult abs_numeral)
    then have "(of_int (2 * \<bar>?m * d - n\<bar>) :: rat) \<le> of_int d" by (simp only: of_int_le_iff)
    then show ?thesis using d by (simp add: field_simps)
  qed
  finally show ?thesis .
qed

lemma rhe_exact:
  assumes "0 < d" "d dvd n"
  shows "round_half_even n d = n div d"
  using assms by (auto simp: round_half_even_def Let_def)

lemma pow2_pos: "0 < pow2 s"
  by (simp add: pow2_def)

lemma pow2_neg: "s < 0 \<Longrightarrow> pow2 s * 2 ^ nat (- s) = 1"
  by (simp add: pow2_def)

lemma pow2_nonneg: "0 \<le> s \<Longrightarrow> pow2 s = 2 ^ nat s"
  by (simp add: pow2_def)

text \<open>
  The float nearest to a quotient is within half a unit of the last place of it, the
  unit being \<open>2 ^ s\<close> for the exponent \<open>s\<close> of the last place.
\<close>

lemma round_to_float_error:
  assumes "0 < a" "0 < b"
  shows "\<exists>s. s = max (float_exponent a b - 52) (- 1074) \<and>
             \<bar>round_to_float a b - of_int a / of_int b\<bar> \<le> pow2 s / 2"
proof -
  define s where "s = max (float_exponent a b - 52) (- 1074)"
  have b: "(0::rat) < of_int b" using assms by simp
  show ?thesis
  proof (cases "0 \<le> s")
    case True
    let ?m = "round_half_even a (b * 2 ^ nat s)"
    have v: "round_to_float a b = of_int ?m * pow2 s"
      using True by (simp add: round_to_float_def Let_def s_def)
    have e: "\<bar>of_int ?m - of_int a / of_int (b * 2 ^ nat s)\<bar> \<le> (1 / 2 :: rat)"
      by (rule rhe_rat_error) (use assms in simp_all)
    have "round_to_float a b - of_int a / of_int b =
          (of_int ?m - of_int a / of_int (b * 2 ^ nat s)) * pow2 s"
      using True b by (simp add: v pow2_nonneg field_simps)
    then have "\<bar>round_to_float a b - of_int a / of_int b\<bar> =
          \<bar>of_int ?m - of_int a / of_int (b * 2 ^ nat s)\<bar> * pow2 s"
      using pow2_pos[of s] by (simp add: abs_mult)
    also have "\<dots> \<le> (1 / 2) * pow2 s"
      using e pow2_pos[of s] by (intro mult_right_mono) simp_all
    finally show ?thesis using s_def by auto
  next
    case False
    then have neg: "s < 0" by simp
    let ?m = "round_half_even (a * 2 ^ nat (- s)) b"
    have v: "round_to_float a b = of_int ?m * pow2 s"
      using False by (simp add: round_to_float_def Let_def s_def)
    have e: "\<bar>of_int ?m - of_int (a * 2 ^ nat (- s)) / of_int b\<bar> \<le> (1 / 2 :: rat)"
      by (rule rhe_rat_error) (use assms in simp_all)
    have "of_int (a * 2 ^ nat (- s)) / of_int b * pow2 s = (of_int a / of_int b :: rat)"
      using pow2_neg[OF neg] by (simp add: field_simps)
    then have "round_to_float a b - of_int a / of_int b =
          (of_int ?m - of_int (a * 2 ^ nat (- s)) / of_int b) * pow2 s"
      by (simp add: v left_diff_distrib)
    then have "\<bar>round_to_float a b - of_int a / of_int b\<bar> =
          \<bar>of_int ?m - of_int (a * 2 ^ nat (- s)) / of_int b\<bar> * pow2 s"
      using pow2_pos[of s] by (simp add: abs_mult)
    also have "\<dots> \<le> (1 / 2) * pow2 s"
      using e pow2_pos[of s] by (intro mult_right_mono) simp_all
    finally show ?thesis using s_def by auto
  qed
qed


text \<open>
  A quotient below \<open>2 ^ k\<close> has an exponent of at most \<open>k\<close>; a quotient of at most 1000
  with a divisor below \<open>2 ^ 43\<close> is therefore rounded by less than the distance of the
  quotient to the next integer, unless it is an integer, which is a float.
\<close>

lemma float_exponent_le:
  assumes "0 < a" "0 < b" "a < b * 2 ^ k"
  shows "float_exponent a b \<le> int k"
proof -
  have "b < 2 ^ nat (bitlen b)" using bitlen_bounds[OF assms(2)] by simp
  then have "b * 2 ^ k < 2 ^ nat (bitlen b) * 2 ^ k" by simp
  with assms(3) have "a < 2 ^ nat (bitlen b) * 2 ^ k" by linarith
  also have "\<dots> = 2 ^ nat (bitlen b + int k)"
    using bitlen_nonneg[of b] by (simp add: nat_add_distrib power_add)
  finally have "bitlen a \<le> bitlen b + int k"
    using bitlen_nonneg[of b] by (simp add: bitlen_le_iff_power)
  moreover have "float_exponent a b \<le> bitlen a - bitlen b"
    by (simp add: float_exponent_def Let_def)
  ultimately show ?thesis by linarith
qed

lemma pow2_le:
  assumes "s \<le> - int k"
  shows "pow2 s \<le> 1 / 2 ^ k"
proof (cases "0 \<le> s")
  case True
  with assms have "s = 0" "k = 0" by simp_all
  then show ?thesis by (simp add: pow2_def)
next
  case False
  then have "k \<le> nat (- s)" using assms by simp
  then have "(2::rat) ^ k \<le> 2 ^ nat (- s)" by (rule power_increasing) simp
  then show ?thesis using False by (simp add: pow2_def frac_le)
qed

lemma quotient_split:
  assumes "0 < b"
  shows "(of_int a / of_int b :: rat) = of_int (a div b) + of_int (a mod b) / of_int b"
proof -
  have "a = (a div b) * b + a mod b" by simp
  then have "(of_int a :: rat) = of_int (a div b) * of_int b + of_int (a mod b)"
    by (metis of_int_add of_int_mult)
  then show ?thesis using assms by (simp add: field_simps)
qed

lemma round_small_quotient:
  assumes "0 < a" "0 < b" "a \<le> 1000 * b" "b < 2 ^ 43"
  shows "of_int (a div b) \<le> round_to_float a b \<and> round_to_float a b < of_int (a div b) + 1"
proof -
  define s where "s = max (float_exponent a b - 52) (- 1074)"
  have "a < b * 2 ^ 10" using assms by simp
  from float_exponent_le[OF assms(1,2) this] have s: "s \<le> - int 42" by (simp add: s_def)
  then have neg: "s < 0" by simp
  show ?thesis
  proof (cases "b dvd a")
    case True
    let ?n = "nat (- s)"
    have nn: "\<not> 0 \<le> s" using neg by simp
    have v: "round_to_float a b = of_int (round_half_even (a * 2 ^ ?n) b) * pow2 s"
      using nn by (simp add: round_to_float_def Let_def s_def)
    have "b dvd a * 2 ^ ?n" using True by simp
    then have "round_half_even (a * 2 ^ ?n) b = (a * 2 ^ ?n) div b"
      using assms(2) by (intro rhe_exact)
    also have "\<dots> = (a div b) * 2 ^ ?n" using True by (metis dvd_div_mult)
    finally have "round_to_float a b = of_int ((a div b) * 2 ^ ?n) * pow2 s"
      by (simp only: v)
    also have "\<dots> = of_int (a div b) * (pow2 s * 2 ^ ?n)" by simp
    also have "\<dots> = of_int (a div b)" using pow2_neg[OF neg] by simp
    finally show ?thesis by simp
  next
    case False
    have "a mod b \<noteq> 0" using False by (simp add: dvd_eq_mod_eq_0)
    moreover have "0 \<le> a mod b" "a mod b < b" using assms(2) by simp_all
    ultimately have r: "1 \<le> a mod b" "a mod b \<le> b - 1" by linarith+
    have bpos: "(0::rat) < of_int b" using assms by simp
    have blt: "(of_int b :: rat) < 2 ^ 43" using assms(4)
      by (metis of_int_less_numeral_power_cancel_iff)
    have inv: "(1 / 2 ^ 43 :: rat) < 1 / of_int b"
      using bpos blt by (simp add: frac_less2)
    have lo: "(1 :: rat) / of_int b \<le> of_int (a mod b) / of_int b"
      using r(1) bpos by (simp add: divide_right_mono)
    have "(of_int (a mod b) :: rat) \<le> of_int b - 1" using r(2)
      by (metis of_int_1 of_int_diff of_int_le_iff)
    then have hi: "(of_int (a mod b) :: rat) / of_int b \<le> 1 - 1 / of_int b"
      using bpos by (simp add: field_simps)
    from round_to_float_error[OF assms(1,2)]
    have "\<bar>round_to_float a b - of_int a / of_int b\<bar> \<le> pow2 s / 2" by (simp add: s_def)
    moreover have "pow2 s / 2 \<le> 1 / 2 ^ 43" using pow2_le[OF s] by simp
    ultimately have err: "\<bar>round_to_float a b - of_int a / of_int b\<bar> \<le> 1 / 2 ^ 43" by linarith
    define x where "x = (of_int (a mod b) :: rat) / of_int b"
    define y where "y = (1 :: rat) / of_int b"
    define eps where "eps = (1 :: rat) / 2 ^ 43"
    define k where "k = (of_int (a div b) :: rat)"
    define v where "v = round_to_float a b"
    have "v - (k + x) \<le> eps" "- eps \<le> v - (k + x)"
      using err quotient_split[OF assms(2), of a]
      unfolding x_def eps_def k_def v_def by (simp_all only: abs_le_iff) linarith+
    moreover have "eps < y" "y \<le> x" "x \<le> 1 - y"
      using inv lo hi unfolding x_def y_def eps_def by blast+
    ultimately have "k \<le> v \<and> v < k + 1" by linarith
    then show ?thesis unfolding k_def v_def .
  qed
qed


section \<open>Properties of the progress callback\<close>


lemma progress_rate_small:
  assumes "0 < tot" "tot < 2 ^ 43" "0 \<le> now" "now \<le> tot"
  shows "progress_rate tot now = Inr ((1000 * now) div tot)"
proof (cases "now = 0")
  case True
  then show ?thesis using assms(1) by (simp add: progress_rate_def py_truediv_def py_int_def)
next
  case False
  let ?a = "1000 * now"
  let ?v = "round_to_float ?a tot"
  let ?k = "?a div tot"
  have a: "0 < ?a" "?a \<le> 1000 * tot" using False assms by simp_all
  from round_small_quotient[OF a(1) assms(1) a(2) assms(2)]
  have b: "of_int ?k \<le> ?v" "?v < of_int ?k + 1" by simp_all
  have "?k \<le> (1000 * tot) div tot" using a(2) assms(1) by (intro zdiv_mono1)
  then have "?k \<le> 1000" using assms(1) by simp
  then have "(of_int ?k :: rat) \<le> 1000" by (metis of_int_le_iff of_int_numeral)
  then have "?v < 1001" using b(2) by linarith
  also have "(1001 :: rat) \<le> 2 ^ 1024" by simp
  finally have no: "\<not> 2 ^ 1024 \<le> ?v" by simp
  have k0: "0 \<le> ?k" using a(1) assms(1) by (simp add: pos_imp_zdiv_nonneg_iff)
  then have "(0::rat) \<le> of_int ?k" by simp
  then have v0: "0 \<le> ?v" using b(1) by linarith
  have fl: "\<lfloor>?v\<rfloor> = ?k" using b by (intro floor_unique) simp_all
  have "py_truediv ?a tot = Inr ?v"
    using a(1) assms(1) no by (simp add: py_truediv_def Let_def)
  then show ?thesis using v0 fl by (simp add: progress_rate_def py_int_def)
qed


text \<open>The division \<open>1000 * (2 ^ 60 - 1) / 2 ^ 60\<close>, step by step.\<close>

lemma bitlen_eqI:
  assumes "2 ^ (n - 1) \<le> x" "x < 2 ^ n" "0 < n"
  shows "bitlen x = int n"
proof (rule antisym)
  show "bitlen x \<le> int n" using assms(2) by (simp add: bitlen_le_iff_power)
  show "int n \<le> bitlen x" using assms(1,3) by (simp add: bitlen_ge_iff_power)
qed

lemma exponent_at_2_60: "float_exponent 1152921504606846975000 1152921504606846976 = 9"
proof -
  have "bitlen 1152921504606846975000 = int 70" by (rule bitlen_eqI) simp_all
  moreover have "bitlen 1152921504606846976 = int 61" by (rule bitlen_eqI) simp_all
  ultimately show ?thesis by (simp add: float_exponent_def)
qed

lemma round_at_2_60: "round_to_float 1152921504606846975000 1152921504606846976 = 1000"
  by (simp add: round_to_float_def exponent_at_2_60 round_half_even_def pow2_def Let_def)

text \<open>The floor of the quotient, and the divisions of \<open>show_progress\<close>, which do not overflow.\<close>

lemma rate_1000_iff:
  fixes tot d :: int
  assumes "0 < tot" "0 \<le> d" "d \<le> tot"
  shows "((1000 * d) div tot = 1000) = (d = tot)"
proof (cases "d = tot")
  case True
  then show ?thesis using assms(1) by simp
next
  case False
  then have "1000 * d \<le> 1000 * tot - 1" using assms by simp
  then have "(1000 * d) div tot \<le> (1000 * tot - 1) div tot"
    using assms(1) by (intro zdiv_mono1)
  moreover have "(1000 * tot - 1) div tot = 999"
    by (rule int_div_pos_eq[of _ _ _ "tot - 1"]) (use assms in \<open>simp_all add: algebra_simps\<close>)
  ultimately show ?thesis using False by simp
qed

lemma truediv_ok:
  assumes "0 \<le> a" "0 < b" "a < 2 ^ 43"
  shows "\<exists>v. py_truediv a b = Inr v"
proof (cases "a = 0")
  case True
  then show ?thesis using assms(2) by (simp add: py_truediv_def)
next
  case False
  then have a: "0 < a" using assms(1) by simp
  define s where "s = max (float_exponent a b - 52) (- 1074)"
  have "(2::int) ^ 43 \<le> b * 2 ^ 43" using assms(2) by simp
  then have "a < b * 2 ^ 43" using assms(3) by linarith
  from float_exponent_le[OF a assms(2) this] have "s \<le> - int 0" by (simp add: s_def)
  from pow2_le[OF this] have p: "pow2 s \<le> 1" by simp
  from round_to_float_error[OF a assms(2)]
  have e: "\<bar>round_to_float a b - of_int a / of_int b\<bar> \<le> pow2 s / 2" by (simp add: s_def)
  have "(1::rat) \<le> of_int b" using assms(2) by simp
  then have "(of_int a / of_int b :: rat) \<le> of_int a"
    using a by (simp add: field_simps mult_left_mono)
  moreover have "(of_int a :: rat) < of_int (2 ^ 43)" using assms(3) by (simp only: of_int_less_iff)
  then have "(of_int a :: rat) < 8796093022208" by simp
  moreover have "round_to_float a b - of_int a / of_int b \<le> pow2 s / 2"
    using e by (simp only: abs_le_iff)
  ultimately have "round_to_float a b < 8796093022209" using p by linarith
  also have "(8796093022209 :: rat) \<le> 2 ^ 1024" by simp
  finally have "\<not> 2 ^ 1024 \<le> round_to_float a b" by simp
  then show ?thesis using a assms(2) by (simp add: py_truediv_def Let_def)
qed

lemma show_progress_ok:
  assumes "0 < tot" "tot < 2 ^ 43" "0 \<le> now" "now \<le> tot"
  shows "\<exists>msg. show_progress name tot now = Inr msg"
proof -
  have n: "now < 2 ^ 43" using assms by linarith
  obtain p where p: "py_truediv now tot = Inr p"
    using truediv_ok[OF assms(3,1) n] by blast
  define piece :: int where "piece = (if 1048576 \<le> tot then 1048576 else 1024)"
  have pc: "0 < piece" by (simp add: piece_def)
  obtain x where x: "py_truediv now piece = Inr x"
    using truediv_ok[OF assms(3) pc n] by blast
  have "0 \<le> tot" using assms(1) by simp
  from truediv_ok[OF this pc assms(2)] obtain y where y: "py_truediv tot piece = Inr y"
    by blast
  show ?thesis using p x y by (auto simp add: show_progress_def Let_def piece_def)
qed


text \<open>
  Claim C4, as the code has it.  For a progress sample with \<open>0 < total < 2 ^ 43\<close> and
  \<open>0 \<le> done \<le> total\<close>, the rate that \<open>int(1000 * now_size/total_size)\<close> computes is
  \<open>floor(1000 * done / total)\<close>; it is 1000 exactly when \<open>done = total\<close>; it does not
  decrease when \<open>done\<close> does not; and it is the rate that \<open>Downloader._show_progress\<close>
  emits on \<open>download_rate\<close> and that \<open>UploadWorker._show_progress\<close> writes into the job
  record and sends on \<open>update\<close>.
\<close>

theorem progress_rate_floor:
  assumes "0 < tot" and "tot < 2 ^ 43" and "0 \<le> d1" and "d1 \<le> d2" and "d2 \<le> tot"
    and "uw_task w = Some t"
  shows "progress_rate tot d2 = Inr ((1000 * d2) div tot) \<and>
         (((1000 * d2) div tot = 1000) = (d2 = tot)) \<and>
         (\<exists>r1 r2. progress_rate tot d1 = Inr r1 \<and> progress_rate tot d2 = Inr r2 \<and> r1 \<le> r2) \<and>
         (\<exists>msg. Downloader_show_progress url name tot d2 =
                  Inr [Download_rate url ((1000 * d2) div tot), Download_proc msg]) \<and>
         (\<exists>msg. UploadWorker_show_progress name tot d2 (w, out) =
                  Inr (w\<lparr>uw_task := Some (t\<lparr>up_rate := (1000 * d2) div tot\<rparr>)\<rparr>,
                       out @ [Update (uw_furl w) (t\<lparr>up_rate := (1000 * d2) div tot\<rparr>),
                              Code_progress msg]))"
proof -
  have d2: "0 \<le> d2" using assms(3,4) by linarith
  have d1: "d1 \<le> tot" using assms(4,5) by linarith
  have r2: "progress_rate tot d2 = Inr ((1000 * d2) div tot)"
    by (rule progress_rate_small[OF assms(1,2) d2 assms(5)])
  have r1: "progress_rate tot d1 = Inr ((1000 * d1) div tot)"
    by (rule progress_rate_small[OF assms(1,2,3) d1])
  have mono: "(1000 * d1) div tot \<le> (1000 * d2) div tot"
    using assms(1,4) by (simp add: zdiv_mono1)
  obtain msg where msg: "show_progress name tot d2 = Inr msg"
    using show_progress_ok[OF assms(1,2) d2 assms(5)] by blast
  have dl: "Downloader_show_progress url name tot d2 =
              Inr [Download_rate url ((1000 * d2) div tot), Download_proc msg]"
    using msg r2 by (simp add: Downloader_show_progress_def)
  have up: "UploadWorker_show_progress name tot d2 (w, out) =
              Inr (w\<lparr>uw_task := Some (t\<lparr>up_rate := (1000 * d2) div tot\<rparr>)\<rparr>,
                   out @ [Update (uw_furl w) (t\<lparr>up_rate := (1000 * d2) div tot\<rparr>),
                          Code_progress msg])"
    using msg r2 assms(6) by (simp add: UploadWorker_show_progress_def Let_def)
  show ?thesis
    using r1 r2 mono dl up rate_1000_iff[OF assms(1) d2 assms(5)] by blast
qed

text \<open>The theorem at a file of 3 bytes, after 1 and after 2 bytes.\<close>

theorem progress_rate_floor_witness:
  "(0::int) < 3 \<and> (3::int) < 2 ^ 43 \<and> (0::int) \<le> 1 \<and> (1::int) \<le> 2 \<and> (2::int) \<le> 3 \<and>
   uw_task (UploadWorker_init\<lparr>uw_task := Some UpJob_default\<rparr>) = Some UpJob_default \<and>
   progress_rate 3 2 = Inr 666 \<and>
   (\<exists>r1 r2. progress_rate 3 1 = Inr r1 \<and> progress_rate 3 2 = Inr r2 \<and> r1 \<le> r2) \<and>
   (\<exists>msg. Downloader_show_progress ''u'' ''f'' 3 2 = Inr [Download_rate ''u'' 666, Download_proc msg])"
proof -
  have h: "(0::int) < 3" "(3::int) < 2 ^ 43" "(0::int) \<le> 1" "(1::int) \<le> 2" "(2::int) \<le> 3"
    "uw_task (UploadWorker_init\<lparr>uw_task := Some UpJob_default\<rparr>) = Some UpJob_default"
    by simp_all
  have "(1000 * 2) div 3 = (666 :: int)" by simp
  then show ?thesis
    using h progress_rate_floor[OF h, of "''u''" "''f''" "[]"] by auto
qed

text \<open>
  Claim C4 as stated fails for a total of \<open>2 ^ 60\<close> bytes with all but one byte done:
  the exact quotient \<open>1000 - 1000 / 2 ^ 60\<close> is nearer to the float 1000 than to any
  other float, so the rate is 1000 although the job is not complete and the floor of
  the quotient is 999.
\<close>

theorem progress_rate_counterexample:
  "progress_rate (2 ^ 60) (2 ^ 60 - 1) = Inr 1000 \<and> 2 ^ 60 - 1 \<noteq> (2 ^ 60 :: int) \<and>
   (0::int) < 2 ^ 60 \<and> (0::int) \<le> 2 ^ 60 - 1 \<and> (2 ^ 60 - 1 :: int) \<le> 2 ^ 60 \<and>
   (1000 * (2 ^ 60 - 1)) div 2 ^ 60 = (999 :: int)"
  by (simp add: progress_rate_def py_truediv_def round_at_2_60 py_int_def Let_def)

text \<open>
  Claim C5 fails on the code: for \<open>total_size == 0\<close> the first statement of
  \<open>show_progress\<close> divides by zero, for every name and every \<open>now_size\<close>, so
  \<open>Downloader._show_progress\<close> raises \<open>ZeroDivisionError\<close> before it emits anything,
  and so does the rate computation \<open>int(1000 * now_size/total_size)\<close> by itself.
\<close>

theorem show_progress_zero_total:
  "show_progress file_name 0 now_size = Inl ZeroDivisionError \<and>
   progress_rate 0 now_size = Inl ZeroDivisionError \<and>
   Downloader_show_progress url file_name 0 now_size = Inl ZeroDivisionError \<and>
   UploadWorker_show_progress file_name 0 now_size st = Inl ZeroDivisionError"
  by (simp add: show_progress_def progress_rate_def py_truediv_def
      Downloader_show_progress_def UploadWorker_show_progress_def)


section \<open>Properties of the dictionaries and of the download manager\<close>

lemma map_of_dict_set: "map_of (dict_set d k v) = (map_of d)(k \<mapsto> v)"
  by (induction d) (auto simp: fun_eq_iff)

lemma keys_dict_set:
  "map fst (dict_set d k v) = (if k \<in> set (map fst d) then map fst d else map fst d @ [k])"
proof (induction d)
  case Nil
  show ?case by simp
next
  case (Cons kv d)
  obtain k' v' where kv: "kv = (k', v')" by (cases kv)
  show ?case
  proof (cases "k' = k")
    case True
    then show ?thesis using kv by simp
  next
    case False
    then show ?thesis using kv Cons.IH by (cases "k \<in> set (map fst d)") simp_all
  qed
qed

lemma distinct_dict_set: "distinct (map fst d) \<Longrightarrow> distinct (map fst (dict_set d k v))"
  by (simp add: keys_dict_set)

lemma distinct_dict_update:
  "distinct (map fst d) \<Longrightarrow> distinct (map fst (dict_update d e))"
  unfolding dict_update_def
  by (induction e arbitrary: d) (simp_all add: distinct_dict_set)

lemma map_of_dict_update: "map_of (dict_update d e) = map_of d ++ map_of (rev e)"
  unfolding dict_update_def
proof (induction e arbitrary: d)
  case Nil
  show ?case by simp
next
  case (Cons kv e)
  show ?case
    by (cases kv) (simp add: Cons.IH map_of_dict_set map_add_def fun_eq_iff split: option.splits)
qed

lemma entries_one:
  assumes "distinct (map fst d)" "map_of d k = Some v"
  shows "entries k d = 1"
  using assms unfolding entries_def
proof (induction d)
  case Nil
  then show ?case by simp
next
  case (Cons kv d)
  obtain k' v' where kv: "kv = (k', v')" by (cases kv)
  show ?case
  proof (cases "k' = k")
    case True
    then have "k \<notin> fst ` set d" using Cons.prems(1) kv by auto
    then have "filter (\<lambda>kv. fst kv = k) d = []" by (auto simp: filter_empty_conv)
    then show ?thesis using True kv by simp
  next
    case False
    then show ?thesis using Cons kv by simp
  qed
qed

lemma filter_update_same:
  "r < length xs \<Longrightarrow> P (xs ! r) = P y \<Longrightarrow> length (filter P (xs[r := y])) = length (filter P xs)"
proof (induction xs arbitrary: r)
  case Nil
  then show ?case by simp
next
  case (Cons x xs)
  then show ?case by (cases r) auto
qed


lemma add_task_twice:
  assumes "dl_url t2 = dl_url t1"
  shows "m_tasks (add_task t2 (add_task t1 s)) = m_tasks (add_task t1 s)"
proof -
  have "dict_in (dl_url t1) (m_tasks (add_task t1 s))"
    by (simp add: add_task_def start_loop_def dict_in_def map_of_dict_set)
  then show ?thesis using assms by (simp add: add_task_def start_loop_def)
qed

lemma add_task_entries:
  assumes "distinct (map fst (m_tasks s))"
  shows "entries (dl_url t1) (m_tasks (add_task t1 s)) = 1"
proof -
  have d: "distinct (map fst (m_tasks (add_task t1 s)))"
    using assms by (simp add: add_task_def start_loop_def distinct_dict_set)
  have "dict_in (dl_url t1) (m_tasks (add_task t1 s))"
    by (simp add: add_task_def start_loop_def dict_in_def map_of_dict_set)
  then obtain v where "map_of (m_tasks (add_task t1 s)) (dl_url t1) = Some v"
    by (auto simp: dict_in_def)
  from entries_one[OF d this] show ?thesis .
qed

lemma add_tasks_entry:
  assumes "distinct (map fst (m_tasks s))" "distinct (map fst ts)" "(k, job) \<in> set ts"
  shows "entries k (m_tasks (add_tasks ts s)) = 1 \<and> dict_get (m_tasks (add_tasks ts s)) k = Inr job"
proof -
  have d: "distinct (map fst (m_tasks (add_tasks ts s)))"
    using assms(1) by (simp add: add_tasks_def start_loop_def distinct_dict_update)
  have "distinct (map fst (rev ts))" using assms(2) by (simp add: rev_map[symmetric])
  moreover have "(k, job) \<in> set (rev ts)" using assms(3) by simp
  ultimately have "map_of (rev ts) k = Some job" by (rule map_of_is_SomeI)
  then have m: "map_of (m_tasks (add_tasks ts s)) k = Some job"
    by (simp add: add_tasks_def start_loop_def map_of_dict_update)
  from entries_one[OF d m] m show ?thesis by (simp add: dict_get_def)
qed

lemma dict_get_dict_set: "dict_get (dict_set d k v) k = Inr v"
  by (simp add: dict_get_def map_of_dict_set)

lemma stop_then_start:
  assumes dl: "dict_get (m_downloaders s) (dl_url task) = Inr r"
    and run: "is_running s r"
    and ing: "dict_get (m_dl_ing s) (dl_url task) = Inr job"
  defines "s1 \<equiv> (update_object r Downloader_stop s)\<lparr>m_dl_ing :=
                   dict_set (m_dl_ing s) (dl_url task) (job\<lparr>dl_run := False\<rparr>)\<rparr>"
  defines "s2 \<equiv> update_object r (\<lambda>w. w\<lparr>w_running := False\<rparr>) s1"
  defines "s3 \<equiv> (update_object r Downloader_start s2)\<lparr>m_dl_ing :=
                   dict_set (m_dl_ing s2) (dl_url task) (job\<lparr>dl_run := True\<rparr>)\<rparr>"
  shows "stop_task task s = Done s1" and "is_running s1 r"
    and "start_task task s1 = Done s1"
    and "step (Thread_ends r) s1 = Done s2" and "\<not> is_running s2 r"
    and "start_task task s2 = Done s3" and "is_running s3 r"
    and "in_flight s3 = in_flight s"
proof -
  have r: "r < length (m_objects s)" "w_running (m_objects s ! r)"
    using run by (simp_all add: is_running_def)
  show "stop_task task s = Done s1"
    using dl run ing by (simp add: stop_task_def s1_def update_object_def Let_def)
  show r1: "is_running s1 r"
    using r by (simp add: s1_def is_running_def update_object_def Downloader_stop_def)
  have dl1: "dict_get (m_downloaders s1) (dl_url task) = Inr r"
    using dl by (simp add: s1_def update_object_def)
  then have in1: "dict_in (dl_url task) (m_downloaders s1)"
    by (auto simp: dict_in_def dict_get_def split: option.splits)
  show "start_task task s1 = Done s1"
    using in1 dl1 r1 by (simp add: start_task_def)
  show "step (Thread_ends r) s1 = Done s2"
    by (simp add: s2_def)
  show nr: "\<not> is_running s2 r"
    using r by (simp add: s2_def s1_def is_running_def update_object_def)
  have dl2: "dict_get (m_downloaders s2) (dl_url task) = Inr r"
    using dl1 by (simp add: s2_def update_object_def)
  then have in2: "dict_in (dl_url task) (m_downloaders s2)"
    by (auto simp: dict_in_def dict_get_def split: option.splits)
  have ing2: "dict_get (m_dl_ing (update_object r Downloader_start s2)) (dl_url task) =
                Inr (job\<lparr>dl_run := False\<rparr>)"
    by (simp add: s2_def s1_def update_object_def dict_get_dict_set)
  have "dict_set (m_dl_ing (update_object r Downloader_start s2)) (dl_url task) (job\<lparr>dl_run := True\<rparr>)
        = dict_set (m_dl_ing s2) (dl_url task) (job\<lparr>dl_run := True\<rparr>)"
    by (simp add: update_object_def)
  then show "start_task task s2 = Done s3"
    using in2 dl2 nr ing2 by (simp add: start_task_def s3_def Let_def)
  show "is_running s3 r"
    using r by (simp add: s3_def s2_def s1_def is_running_def update_object_def Downloader_start_def)
  have "m_objects s3 = (m_objects s)[r := (m_objects s ! r)\<lparr>w_stopped := True, w_running := True\<rparr>]"
    using r by (simp add: s3_def s2_def s1_def update_object_def Downloader_start_def
        Downloader_stop_def)
  then show "in_flight s3 = in_flight s"
    using r by (simp add: in_flight_def filter_update_same)
qed

text \<open>
  When the thread of the stopped worker has ended before \<open>start_task\<close> is called, the
  job is resumed: for a job whose worker is registered and running and whose record is
  in the live snapshot \<open>_dl_ing\<close>, \<open>stop_task\<close>, the end of the thread and \<open>start_task\<close>
  leave the record marked \<open>run = True\<close>, the same worker running, the pending tasks,
  the count and the registered workers as they were, and as many workers in flight as
  before the stop.
\<close>

lemma start_after_thread_end:
  assumes "dict_get (m_downloaders s) (dl_url task) = Inr r"
    and "is_running s r"
    and "dict_get (m_dl_ing s) (dl_url task) = Inr job"
  shows "\<exists>s1 s2 s3.
           stop_task task s = Done s1 \<and>
           dict_get (m_dl_ing s1) (dl_url task) = Inr (job\<lparr>dl_run := False\<rparr>) \<and>
           dict_get (m_downloaders s1) (dl_url task) = Inr r \<and> m_tasks s1 = m_tasks s \<and>
           step (Thread_ends r) s1 = Done s2 \<and>
           start_task task s2 = Done s3 \<and>
           dict_get (m_dl_ing s3) (dl_url task) = Inr (job\<lparr>dl_run := True\<rparr>) \<and>
           is_running s3 r \<and> m_downloaders s3 = m_downloaders s \<and>
           m_tasks s3 = m_tasks s \<and> m_count s3 = m_count s \<and> in_flight s3 = in_flight s \<and>
           map fst (m_dl_ing s3) = map fst (m_dl_ing s)"
proof -
  define s1 where "s1 = (update_object r Downloader_stop s)\<lparr>m_dl_ing :=
                   dict_set (m_dl_ing s) (dl_url task) (job\<lparr>dl_run := False\<rparr>)\<rparr>"
  define s2 where "s2 = update_object r (\<lambda>w. w\<lparr>w_running := False\<rparr>) s1"
  define s3 where "s3 = (update_object r Downloader_start s2)\<lparr>m_dl_ing :=
                   dict_set (m_dl_ing s2) (dl_url task) (job\<lparr>dl_run := True\<rparr>)\<rparr>"
  note facts = stop_then_start[OF assms, folded s1_def, folded s2_def, folded s3_def]
  have k: "dl_url task \<in> set (map fst (m_dl_ing s))"
    using assms(3) by (auto simp: dict_get_def split: option.splits dest: map_of_SomeD intro: rev_image_eqI)
  have keys: "map fst (m_dl_ing s3) = map fst (m_dl_ing s)"
    using k by (simp add: s3_def s2_def s1_def update_object_def keys_dict_set)
  have "dict_get (m_dl_ing s1) (dl_url task) = Inr (job\<lparr>dl_run := False\<rparr>)"
    by (simp add: s1_def dict_get_dict_set)
  moreover have "dict_get (m_downloaders s1) (dl_url task) = Inr r"
    using assms(1) by (simp add: s1_def update_object_def)
  moreover have "dict_get (m_dl_ing s3) (dl_url task) = Inr (job\<lparr>dl_run := True\<rparr>)"
    by (simp add: s3_def dict_get_dict_set)
  moreover have "m_tasks s1 = m_tasks s" "m_tasks s3 = m_tasks s" "m_count s3 = m_count s"
    "m_downloaders s3 = m_downloaders s"
    by (simp_all add: s1_def s2_def s3_def update_object_def)
  ultimately show ?thesis using facts keys by blast
qed

lemmas manager_defs =
  DownloadManager_init_def add_task_def add_tasks_def start_loop_def run_iteration_def
  stop_task_def start_task_def del_task_def set_thread_def
  update_object_def is_running_def in_flight_def dict_in_def dict_get_def dict_del_def
  dict_update_def Downloader_init_def Downloader_set_values_def Downloader_start_def
  Downloader_stop_def job_u1_def job_u2_def DlJob_default_def Let_def

text \<open>
  The invariant of the manager: every \<open>Downloader\<close> that has been created is counted,
  and the count is at most the ceiling.  A step creates a \<open>Downloader\<close> only in the
  dispatch loop, with the count below the ceiling, and raises the count with it; no
  step lowers the count; and no step but \<open>set_thread\<close> changes the ceiling.
\<close>

lemma step_counted:
  assumes "counted s" "keeps_ceiling e"
  shows "counted (state_of (step e s)) \<and> m_thread (state_of (step e s)) = m_thread s"
proof (cases e)
  case (Start_task task)
  then show ?thesis using assms(1)
    by (auto simp: counted_def start_task_def add_task_def start_loop_def update_object_def
        Let_def split: sum.splits)
next
  case (Stop_task task)
  then show ?thesis using assms(1)
    by (auto simp: counted_def stop_task_def update_object_def Let_def split: sum.splits)
next
  case Dispatch
  then show ?thesis using assms(1)
    by (auto simp: counted_def run_iteration_def Let_def split: list.splits)
next
  case (Set_thread n)
  then show ?thesis using assms(2) by simp
qed (use assms(1) in \<open>auto simp: counted_def add_task_def add_tasks_def start_loop_def
      del_task_def update_object_def ahead_rate_def ahead_error_def Let_def
      split: sum.splits\<close>)

lemma steps_counted:
  assumes "counted s" "list_all keeps_ceiling es"
  shows "counted (state_of (steps es s)) \<and> m_thread (state_of (steps es s)) = m_thread s"
  using assms
proof (induction es arbitrary: s)
  case Nil
  then show ?case by simp
next
  case (Cons e es)
  from Cons.prems have k: "keeps_ceiling e" "list_all keeps_ceiling es" by simp_all
  from step_counted[OF Cons.prems(1) k(1)]
  have st: "counted (state_of (step e s))"
    "m_thread (state_of (step e s)) = m_thread s" by simp_all
  show ?case
  proof (cases "step e s")
    case (Done s')
    with st have "counted s'" "m_thread s' = m_thread s" by simp_all
    with Cons.IH[OF this(1) k(2)] Done show ?thesis by simp
  next
    case (Raised x s')
    with st show ?thesis by simp
  next
    case (Blocked s')
    with st show ?thesis by simp
  qed
qed

lemma in_flight_le_objects: "in_flight s \<le> length (m_objects s)"
  by (simp add: in_flight_def)

lemma dispatch_below_ceiling:
  "m_objects (run_iteration s) \<noteq> m_objects s \<Longrightarrow> m_count s < m_thread s"
  by (auto simp: run_iteration_def Let_def split: list.splits if_splits)

text \<open>
  Claim C1.  For a manager created with a ceiling \<open>threads\<close> that is not negative, and
  after every sequence of steps that leaves the ceiling as it is (additions of one task
  or of a batch, stops, starts and restarts, deletions, iterations of the dispatch loop,
  ends of worker threads, deliveries of rates and errors), also when the sequence is cut
  short by an exception: the number of workers in flight is at most the count \<open>_count\<close>,
  and the count is at most the ceiling.  Since every prefix of a sequence is a sequence,
  this holds at every instant in between.  The count covers every worker that a step
  makes active: a \<open>start_task\<close> that restarts a stopped worker leaves the count as it is,
  and that worker has been counted since the loop created it.  And the dispatch loop
  creates a worker only in a state whose count is below the ceiling.
\<close>

theorem in_flight_within_ceiling:
  assumes "0 \<le> threads" and "list_all keeps_ceiling es"
  shows "int (in_flight (state_of (steps es (DownloadManager_init threads))))
           \<le> m_count (state_of (steps es (DownloadManager_init threads))) \<and>
         m_count (state_of (steps es (DownloadManager_init threads))) \<le> threads \<and>
         m_thread (state_of (steps es (DownloadManager_init threads))) = threads \<and>
         (m_objects (run_iteration s) \<noteq> m_objects s \<longrightarrow> m_count s < m_thread s)"
proof -
  let ?s = "state_of (steps es (DownloadManager_init threads))"
  have "counted (DownloadManager_init threads)"
    using assms(1) by (simp add: counted_def DownloadManager_init_def)
  from steps_counted[OF this assms(2)]
  have c: "counted ?s" and t: "m_thread ?s = threads"
    by (simp_all add: DownloadManager_init_def)
  have "int (in_flight ?s) \<le> int (length (m_objects ?s))"
    using in_flight_le_objects[of ?s] by simp
  then show ?thesis using c t dispatch_below_ceiling[of s] by (auto simp: counted_def)
qed

text \<open>
  The theorem at the ceiling 1: the job \<open>u1\<close> is added and dispatched, the loop ends,
  the job is stopped, its thread ends, the job is started again, the job \<open>u2\<close> is
  added and the loop runs.  One worker is in flight, the count is 1 and \<open>u2\<close> is still
  pending.
\<close>

theorem in_flight_within_ceiling_witness:
  "0 \<le> (1::int) \<and>
   list_all keeps_ceiling [Add_task job_u1, Dispatch, Dispatch, Stop_task job_u1, Thread_ends 0,
      Start_task job_u1, Add_task job_u2, Dispatch] \<and>
   int (in_flight (state_of (steps [Add_task job_u1, Dispatch, Dispatch, Stop_task job_u1,
      Thread_ends 0, Start_task job_u1, Add_task job_u2, Dispatch] (DownloadManager_init 1))))
     \<le> m_count (state_of (steps [Add_task job_u1, Dispatch, Dispatch, Stop_task job_u1,
      Thread_ends 0, Start_task job_u1, Add_task job_u2, Dispatch] (DownloadManager_init 1))) \<and>
   m_count (state_of (steps [Add_task job_u1, Dispatch, Dispatch, Stop_task job_u1,
      Thread_ends 0, Start_task job_u1, Add_task job_u2, Dispatch] (DownloadManager_init 1))) \<le> 1 \<and>
   in_flight (state_of (steps [Add_task job_u1, Dispatch, Dispatch, Stop_task job_u1,
      Thread_ends 0, Start_task job_u1, Add_task job_u2, Dispatch] (DownloadManager_init 1))) = 1 \<and>
   map fst (m_tasks (state_of (steps [Add_task job_u1, Dispatch, Dispatch, Stop_task job_u1,
      Thread_ends 0, Start_task job_u1, Add_task job_u2, Dispatch] (DownloadManager_init 1))))
     = [''u2''] \<and>
   (m_objects (run_iteration (add_task job_u1 (DownloadManager_init 1)))
      \<noteq> m_objects (add_task job_u1 (DownloadManager_init 1)) \<and>
    m_count (add_task job_u1 (DownloadManager_init 1))
      < m_thread (add_task job_u1 (DownloadManager_init 1)))"
proof -
  let ?es = "[Add_task job_u1, Dispatch, Dispatch, Stop_task job_u1, Thread_ends 0,
      Start_task job_u1, Add_task job_u2, Dispatch]"
  have h: "0 \<le> (1::int)" "list_all keeps_ceiling ?es" by simp_all
  have v: "in_flight (state_of (steps ?es (DownloadManager_init 1))) = 1"
    "map fst (m_tasks (state_of (steps ?es (DownloadManager_init 1)))) = [''u2'']"
    by (simp_all add: manager_defs)
  have d: "m_objects (run_iteration (add_task job_u1 (DownloadManager_init 1)))
             \<noteq> m_objects (add_task job_u1 (DownloadManager_init 1))"
    by (simp add: manager_defs)
  show ?thesis
    using h v d in_flight_within_ceiling[OF h, of "add_task job_u1 (DownloadManager_init 1)"]
    by simp
qed

text \<open>
  Claim C7 fails on the code for the batch add.  A pending job under the key \<open>u\<close> (with
  the password \<open>a\<close>) and a batch with the same key (with the password \<open>b\<close>): after
  \<open>add_tasks\<close> the key has one entry, and it holds the record of the batch, so the
  pending entry has been altered.  The single \<open>add_task\<close> at the same input leaves the
  pending record as it was.
\<close>

theorem batch_add_overwrites_pending:
  "dict_get (m_tasks (add_tasks [(''u'', DlJob_default\<lparr>dl_url := ''u'', dl_pwd := ''a''\<rparr>)]
         (DownloadManager_init 3))) ''u'' =
     Inr (DlJob_default\<lparr>dl_url := ''u'', dl_pwd := ''a''\<rparr>) \<and>
   dict_get (m_tasks (add_tasks [(''u'', DlJob_default\<lparr>dl_url := ''u'', dl_pwd := ''b''\<rparr>)]
      (add_tasks [(''u'', DlJob_default\<lparr>dl_url := ''u'', dl_pwd := ''a''\<rparr>)]
         (DownloadManager_init 3)))) ''u'' =
     Inr (DlJob_default\<lparr>dl_url := ''u'', dl_pwd := ''b''\<rparr>) \<and>
   DlJob_default\<lparr>dl_url := ''u'', dl_pwd := ''b''\<rparr> \<noteq> DlJob_default\<lparr>dl_url := ''u'', dl_pwd := ''a''\<rparr> \<and>
   dict_get (m_tasks (add_task (DlJob_default\<lparr>dl_url := ''u'', dl_pwd := ''b''\<rparr>)
      (add_tasks [(''u'', DlJob_default\<lparr>dl_url := ''u'', dl_pwd := ''a''\<rparr>)]
         (DownloadManager_init 3)))) ''u'' =
     Inr (DlJob_default\<lparr>dl_url := ''u'', dl_pwd := ''a''\<rparr>)"
  by (simp add: add_tasks_def add_task_def start_loop_def dict_update_def
      DownloadManager_init_def dict_get_def dict_in_def DlJob_default_def)

text \<open>
  Claim C8 fails on the code.  The job \<open>u1\<close> is added and dispatched; \<open>stop_task\<close>
  marks its record \<open>run = False\<close> and asks the worker's thread to terminate;
  \<open>start_task\<close>, called next, finds the worker registered and its thread still
  running, and does nothing: the state after it is the state before it, and the record
  is still marked \<open>run = False\<close>.  When the thread then ends, no worker is in flight
  and the job has not been resumed.
\<close>

theorem start_after_stop_ignored:
  "(case steps [Add_task job_u1, Dispatch, Stop_task job_u1] (DownloadManager_init 3) of
      Done s1 \<Rightarrow>
        dict_get (m_dl_ing s1) ''u1'' = Inr (job_u1\<lparr>dl_run := False\<rparr>) \<and>
        dict_get (m_downloaders s1) ''u1'' = Inr 0 \<and> is_running s1 0 \<and>
        start_task job_u1 s1 = Done s1
    | Raised e s1 \<Rightarrow> False
    | Blocked s1 \<Rightarrow> False) \<and>
   (case steps [Add_task job_u1, Dispatch, Stop_task job_u1, Start_task job_u1, Thread_ends 0]
           (DownloadManager_init 3) of
      Done s \<Rightarrow>
        dict_get (m_dl_ing s) ''u1'' = Inr (job_u1\<lparr>dl_run := False\<rparr>) \<and>
        in_flight s = 0 \<and> m_tasks s = [] \<and> m_count s = 1
    | Raised e s \<Rightarrow> False
    | Blocked s \<Rightarrow> False)"
  by (simp add: manager_defs)

section \<open>Properties of the upload worker\<close>


lemmas upload_defs =
  UploadWorker_run_def upload_iteration_def follow_up_def run_call_def emit_def set_info_def
  emit_update_def del_current_def UploadWorker_init_def UploadWorker_add_task_def
  UploadWorker_add_tasks_def dict_in_def dict_del_def dict_update_def up_missing_def up_a_def
  env_with_def UpJob_default_def Let_def

lemma missing_path_iteration:
  assumes "uw_tasks (fst st) = (furl, task) # rest" "\<not> path_exists env furl"
  shows "upload_iteration env st =
           Loop_next ((fst st)\<lparr>uw_furl := furl, uw_task := Some task\<rparr>, snd st @ [Code_not_found furl])"
  using assms by (simp add: upload_iteration_def emit_def Let_def)

lemma missing_path_loops:
  assumes "uw_tasks (fst st) = (furl, task) # rest" "\<not> path_exists env furl"
  shows "upload_loop n env st = None"
  using assms
proof (induction n arbitrary: st)
  case 0
  show ?case by simp
next
  case (Suc n)
  let ?st = "((fst st)\<lparr>uw_furl := furl, uw_task := Some task\<rparr>, snd st @ [Code_not_found furl])"
  have "uw_tasks (fst ?st) = (furl, task) # rest" using Suc.prems(1) by simp
  from Suc.IH[OF this Suc.prems(2)] missing_path_iteration[OF Suc.prems]
  show ?case by simp
qed

text \<open>
  Claim C6 fails on the code.  A batch of two jobs whose first path does not exist: the
  iteration for the missing path sends the "file does not exist" text and goes on to
  the next iteration (\<open>continue\<close>) with the job still the first pending one and its
  \<open>info\<close> field not set; so every iteration is this one, the second job is never
  reached, and the run does not return, whatever the bound on the iterations.
\<close>

theorem missing_path_never_ends:
  "upload_iteration (env_with SUCCESS)
     ((UploadWorker_add_tasks [(''/missing'', up_missing), (''/a'', up_a)] UploadWorker_init)
        \<lparr>uw_mutex := True, uw_is_work := True\<rparr>, []) =
   Loop_next
     (\<lparr>uw_tasks = [(''/missing'', up_missing), (''/a'', up_a)], uw_mutex = True,
       uw_is_work = True, uw_furl = ''/missing'', uw_task = Some up_missing\<rparr>,
      [Code_not_found ''/missing'']) \<and>
   up_info up_missing = None \<and>
   (\<forall>n. UploadWorker_run n (env_with SUCCESS)
          (UploadWorker_add_tasks [(''/missing'', up_missing), (''/a'', up_a)] UploadWorker_init) =
        None)"
proof -
  let ?w = "(UploadWorker_add_tasks [(''/missing'', up_missing), (''/a'', up_a)] UploadWorker_init)
              \<lparr>uw_mutex := True, uw_is_work := True\<rparr>"
  have t: "uw_tasks (fst (?w, [])) = (''/missing'', up_missing) # [(''/a'', up_a)]"
    by (simp add: UploadWorker_add_tasks_def UploadWorker_init_def dict_update_def)
  have p: "\<not> path_exists (env_with SUCCESS) ''/missing''" by (simp add: env_with_def)
  have "\<forall>n. upload_loop n (env_with SUCCESS) (?w, []) = None"
    using missing_path_loops[OF t p] by blast
  then have "\<forall>n. UploadWorker_run n (env_with SUCCESS)
          (UploadWorker_add_tasks [(''/missing'', up_missing), (''/a'', up_a)] UploadWorker_init) =
        None"
    by (simp add: UploadWorker_run_def UploadWorker_add_tasks_def UploadWorker_init_def)
  moreover have "upload_iteration (env_with SUCCESS) (?w, []) =
      Loop_next
       (\<lparr>uw_tasks = [(''/missing'', up_missing), (''/a'', up_a)], uw_mutex = True,
         uw_is_work = True, uw_furl = ''/missing'', uw_task = Some up_missing\<rparr>,
        [Code_not_found ''/missing''])"
    using missing_path_iteration[OF t p]
    by (simp add: UploadWorker_add_tasks_def UploadWorker_init_def dict_update_def)
  moreover have "up_info up_missing = None" by (simp add: up_missing_def UpJob_default_def)
  ultimately show ?thesis by blast
qed

text \<open>
  Claim C9 fails on the code.  A single file, with both directives set, whose upload
  returns \<open>FAILED\<close>: neither follow-up call is made, as the claim says, but the \<open>info\<close>
  field of the job record is set to the text "upload succeeded", before the status is
  looked at, and the record is not sent on \<open>update\<close>; the run ends with the job removed
  from the pending ones.
\<close>

theorem declined_upload_marked_ok:
  "UploadWorker_run 2 (env_with FAILED) (UploadWorker_add_task up_a UploadWorker_init) =
     Some (Done (\<lparr>uw_tasks = [], uw_mutex = False, uw_is_work = False, uw_furl = ''/a'',
                  uw_task = Some (up_a\<lparr>up_info := Some Info_upload_ok\<rparr>)\<rparr>,
                 [Code_upload_file ''/a'', Call_upload_file ''/a'' (- 1)]))"
  by (simp add: upload_defs numeral_2_eq_2)

text \<open>
  The follow-up calls, for every upload that returns: the password is set exactly when
  the status is \<open>SUCCESS\<close> and the job has the directive, and then the description
  likewise, unless setting the password raised.
\<close>

lemma follow_up_calls:
  "snd (fst (follow_up env task code fid isfile st)) =
     snd st @
     (if code = SUCCESS \<and> up_set_pwd task then [Call_set_passwd fid (up_pwd task) isfile] else []) @
     (if code = SUCCESS \<and> up_set_desc task \<and>
         \<not> (up_set_pwd task \<and> (\<exists>e. set_passwd env fid (up_pwd task) isfile = Raises e))
      then [Call_set_desc fid (up_desc task) isfile] else [])"
  by (auto simp: follow_up_def emit_def Let_def split: call.splits)


section \<open>Properties of the workers of one action\<close>























end
